theory Spec2Isabelle
  imports Complex_Main
begin

section \<open>Shared data model\<close>

text \<open>
  Exceptions of the Python code are values. \<open>DivideByZero\<close> stands for a NumPy
  division by a zero norm, which NumPy reports with a runtime warning and not-a-number
  coordinates instead of an exception.
\<close>

datatype error = ValueError | TypeError | IndexError | DivideByZero | TransformNotInvertible
  | ZeroDivisionError

type_synonym cell = "int \<times> int"

type_synonym point = "real \<times> real"

text \<open>
  A two-dimensional NumPy array: its shape and its entries. Floating-point numbers are
  idealised as reals throughout.
\<close>

record 'a ndarray =
  shape0 :: nat
  shape1 :: nat
  cells :: "nat \<Rightarrow> nat \<Rightarrow> 'a"

text \<open>
  NumPy indexing \<open>a[r, c]\<close>: a negative index counts from the end of its axis, an index
  outside \<open>[-n, n)\<close> raises IndexError.
\<close>

definition np_get :: "'a ndarray \<Rightarrow> int \<Rightarrow> int \<Rightarrow> error + 'a" where
  "np_get a r c =
     (let n0 = int (shape0 a); n1 = int (shape1 a);
          r' = (if r < 0 then n0 + r else r);
          c' = (if c < 0 then n1 + c else c)
      in if 0 \<le> r' \<and> r' < n0 \<and> 0 \<le> c' \<and> c' < n1
         then Inr (cells a (nat r') (nat c'))
         else Inl IndexError)"

text \<open>\<open>np.linalg.norm([dx, dy])\<close> on integer offsets.\<close>

definition norm2 :: "int \<Rightarrow> int \<Rightarrow> real" where
  "norm2 dx dy = sqrt (real_of_int (dx * dx + dy * dy))"

section \<open>Grid search: \<open>astar_planner.py\<close>\<close>

text \<open>
  An elevation raster as the planner receives it: a NumPy array of floating-point
  numbers, or an array of integers of a given bit width, signed (\<open>True\<close>) or unsigned.
  A scalar read from an integer array keeps the array's type, so the difference of two
  such scalars and its absolute value wrap around: for \<open>uint8\<close>, \<open>9 - 10\<close> is \<open>255\<close>.
\<close>

datatype raster = Float_raster "real ndarray" | Int_raster bool nat "int ndarray"

definition scalar_wrap :: "bool \<Rightarrow> nat \<Rightarrow> int \<Rightarrow> int" where
  "scalar_wrap sg w x =
     (if sg then (x + 2 ^ (w - 1)) mod 2 ^ w - 2 ^ (w - 1) else x mod 2 ^ w)"

text \<open>\<open>abs(elev_neighbor - elev_current)\<close> on two scalars of an integer array.\<close>

definition int_abs_diff :: "bool \<Rightarrow> nat \<Rightarrow> int \<Rightarrow> int \<Rightarrow> int" where
  "int_abs_diff sg w elev_neighbor elev_current =
     scalar_wrap sg w \<bar>scalar_wrap sg w (elev_neighbor - elev_current)\<bar>"

record AStarPlanner =
  grid :: "real ndarray"
  elevation :: "raster option"
  elevation_penalty :: real

definition directions :: "(int \<times> int) list" where
  "directions = [(0, 1), (0, -1), (1, 0), (-1, 0), (1, 1), (1, -1), (-1, 1), (-1, -1)]"

text \<open>The bounds test and the occupancy test of \<open>get_neighbors\<close>, on one candidate cell.\<close>

definition in_bounds :: "real ndarray \<Rightarrow> cell \<Rightarrow> bool" where
  "in_bounds g c = (0 \<le> fst c \<and> fst c < int (shape0 g) \<and> 0 \<le> snd c \<and> snd c < int (shape1 g))"

definition is_free :: "real ndarray \<Rightarrow> cell \<Rightarrow> bool" where
  "is_free g c = (cells g (nat (fst c)) (nat (snd c)) = 0)"

definition get_neighbors :: "AStarPlanner \<Rightarrow> cell \<Rightarrow> (cell \<times> real) list" where
  "get_neighbors pl pos =
     concat (map (\<lambda>(dx, dy).
        let nx = fst pos + dx; ny = snd pos + dy
        in if in_bounds (grid pl) (nx, ny)
           then (if is_free (grid pl) (nx, ny) then [((nx, ny), norm2 dx dy)] else [])
           else []) directions)"

text \<open>
  The elevation term of an edge: zero without an elevation field, otherwise the penalty
  times \<open>abs(elev_neighbor - elev_current)\<close> of the two looked-up elevations, computed
  in the raster's own number type.
\<close>

definition elev_cost :: "AStarPlanner \<Rightarrow> cell \<Rightarrow> cell \<Rightarrow> error + real" where
  "elev_cost pl current neighbor =
     (case elevation pl of
        None \<Rightarrow> Inr 0
      | Some (Float_raster el) \<Rightarrow>
          (case np_get el (fst current) (snd current) of
             Inl e \<Rightarrow> Inl e
           | Inr elev_current \<Rightarrow>
               (case np_get el (fst neighbor) (snd neighbor) of
                  Inl e \<Rightarrow> Inl e
                | Inr elev_neighbor \<Rightarrow>
                    Inr (elevation_penalty pl * \<bar>elev_neighbor - elev_current\<bar>)))
      | Some (Int_raster sg w el) \<Rightarrow>
          (case np_get el (fst current) (snd current) of
             Inl e \<Rightarrow> Inl e
           | Inr elev_current \<Rightarrow>
               (case np_get el (fst neighbor) (snd neighbor) of
                  Inl e \<Rightarrow> Inl e
                | Inr elev_neighbor \<Rightarrow>
                    Inr (elevation_penalty pl *
                         real_of_int (int_abs_diff sg w elev_neighbor elev_current)))))"

text \<open>
  The search state of one \<open>find_path\<close> call. \<open>g_score\<close> is a \<open>defaultdict\<close> whose
  missing keys read as \<open>+inf\<close>: a missing key is \<open>None\<close> here. The binary heap of
  \<open>heapq\<close> is kept as the bag of its entries; \<open>heappop\<close> removes the least entry in
  Python's tuple order (first the f-score, then the cell), which is what a binary heap
  returns.
\<close>

record astar_state =
  open_set :: "(real \<times> cell) list"
  came_from :: "cell \<rightharpoonup> cell"
  g_score :: "cell \<rightharpoonup> real"
  visited :: "cell set"

definition cell_le :: "cell \<Rightarrow> cell \<Rightarrow> bool" where
  "cell_le a b = (fst a < fst b \<or> (fst a = fst b \<and> snd a \<le> snd b))"

definition entry_le :: "real \<times> cell \<Rightarrow> real \<times> cell \<Rightarrow> bool" where
  "entry_le a b = (fst a < fst b \<or> (fst a = fst b \<and> cell_le (snd a) (snd b)))"

fun heap_min :: "real \<times> cell \<Rightarrow> (real \<times> cell) list \<Rightarrow> real \<times> cell" where
  "heap_min m [] = m"
| "heap_min m (e # es) = heap_min (if entry_le m e then m else e) es"

definition heappop :: "(real \<times> cell) list \<Rightarrow> (real \<times> cell) \<times> (real \<times> cell) list" where
  "heappop h = (let m = heap_min (hd h) (tl h) in (m, remove1 m h))"

definition heappush :: "(real \<times> cell) list \<Rightarrow> real \<times> cell \<Rightarrow> (real \<times> cell) list" where
  "heappush h e = e # h"

text \<open>\<open>tentative_g < g_score[neighbor]\<close>, where a missing score is \<open>+inf\<close>.\<close>

definition improves :: "real \<Rightarrow> real option \<Rightarrow> bool" where
  "improves tentative_g old = (case old of None \<Rightarrow> True | Some v \<Rightarrow> tentative_g < v)"

text \<open>The body of the loop over the neighbours of \<open>current\<close>, one neighbour at a time.\<close>

fun relax :: "AStarPlanner \<Rightarrow> cell \<Rightarrow> cell \<Rightarrow> (cell \<times> real) list \<Rightarrow> astar_state
    \<Rightarrow> error + astar_state" where
  "relax pl goal current [] st = Inr st"
| "relax pl goal current ((neighbor, base_cost) # rest) st =
     (if neighbor \<in> visited st then relax pl goal current rest st
      else case elev_cost pl current neighbor of
        Inl e \<Rightarrow> Inl e
      | Inr ec \<Rightarrow>
          (case g_score st current of
             None \<Rightarrow> relax pl goal current rest st
           | Some g_current \<Rightarrow>
               (let cost = base_cost + ec; tentative_g = g_current + cost
                in if improves tentative_g (g_score st neighbor)
                   then relax pl goal current rest
                     (st\<lparr>came_from := (came_from st)(neighbor \<mapsto> current),
                         g_score := (g_score st)(neighbor \<mapsto> tentative_g),
                         open_set := heappush (open_set st)
                           (tentative_g + norm2 (fst goal - fst neighbor) (snd goal - snd neighbor),
                            neighbor)\<rparr>)
                   else relax pl goal current rest st)))"

text \<open>
  Path reconstruction: follow \<open>came_from\<close> while the current cell is a key, collecting the
  cells passed; the caller appends \<open>start\<close> and reverses.
\<close>

partial_function (option) walk_back :: "(cell \<rightharpoonup> cell) \<Rightarrow> cell \<Rightarrow> cell list \<Rightarrow> cell list option" where
  "walk_back cf current path =
     (case cf current of
        None \<Rightarrow> Some path
      | Some parent \<Rightarrow> walk_back cf parent (path @ [current]))"

text \<open>
  The main loop. The outer \<open>option\<close> is \<open>None\<close> when the loop does not return; inside,
  \<open>Inl\<close> is a raised exception, \<open>Inr None\<close> the absent path and \<open>Inr (Some p)\<close> a path.
\<close>

partial_function (option) astar_loop :: "AStarPlanner \<Rightarrow> cell \<Rightarrow> cell \<Rightarrow> astar_state
    \<Rightarrow> (error + cell list option) option" where
  "astar_loop pl start goal st =
     (if open_set st = [] then Some (Inr None)
      else
        (let current = snd (fst (heappop (open_set st)));
             st1 = st\<lparr>open_set := snd (heappop (open_set st))\<rparr>
         in if current = goal
            then (case walk_back (came_from st1) current [] of
                    None \<Rightarrow> None
                  | Some path \<Rightarrow> Some (Inr (Some (rev (path @ [start])))))
            else (case relax pl goal current (get_neighbors pl current)
                         (st1\<lparr>visited := insert current (visited st1)\<rparr>) of
                    Inl e \<Rightarrow> Some (Inl e)
                  | Inr st2 \<Rightarrow> astar_loop pl start goal st2)))"

definition init_state :: "cell \<Rightarrow> astar_state" where
  "init_state start =
     \<lparr>open_set = [(0, start)], came_from = Map.empty, g_score = [start \<mapsto> 0], visited = {}\<rparr>"

definition find_path :: "AStarPlanner \<Rightarrow> cell \<Rightarrow> cell \<Rightarrow> (error + cell list option) option" where
  "find_path pl start goal =
     (if start = goal then Some (Inr (Some [start]))
      else astar_loop pl start goal (init_state start))"

text \<open>
  What the claims about returned paths speak of. A move from \<open>a\<close> to \<open>b\<close> is legal when
  the offset is one of the eight directions and \<open>b\<close> is in bounds and unoccupied.
  \<open>edge_cost\<close> is the cost the search itself assigns to an edge: the Euclidean length of
  the offset plus the elevation term it computes; it is undefined where the elevation
  lookup raises. \<open>path_cost\<close> adds it up along a path.
\<close>

definition legal_move :: "AStarPlanner \<Rightarrow> cell \<Rightarrow> cell \<Rightarrow> bool" where
  "legal_move pl a b =
     ((fst b - fst a, snd b - snd a) \<in> set directions \<and> in_bounds (grid pl) b \<and> is_free (grid pl) b)"

fun legal_path :: "AStarPlanner \<Rightarrow> cell list \<Rightarrow> bool" where
  "legal_path pl [] = True"
| "legal_path pl [a] = True"
| "legal_path pl (a # b # rest) = (legal_move pl a b \<and> legal_path pl (b # rest))"

definition edge_cost :: "AStarPlanner \<Rightarrow> cell \<Rightarrow> cell \<Rightarrow> real option" where
  "edge_cost pl a b =
     (case elev_cost pl a b of
        Inl _ \<Rightarrow> None
      | Inr ec \<Rightarrow> Some (norm2 (fst b - fst a) (snd b - snd a) + ec))"

fun path_cost :: "AStarPlanner \<Rightarrow> cell list \<Rightarrow> real option" where
  "path_cost pl [] = Some 0"
| "path_cost pl [a] = Some 0"
| "path_cost pl (a # b # rest) =
     (case edge_cost pl a b of
        None \<Rightarrow> None
      | Some e \<Rightarrow> (case path_cost pl (b # rest) of None \<Rightarrow> None | Some c \<Rightarrow> Some (e + c)))"

text \<open>
  The cost as claim C2 words it, independent of how the search computes: an edge costs
  the Euclidean length of its offset, plus, when an elevation field is present, the
  penalty times the absolute difference of the elevations of its two cells as numbers.
  It is undefined where a cell lies outside the elevation field.
\<close>

fun raster_value :: "raster \<Rightarrow> cell \<Rightarrow> real option" where
  "raster_value (Float_raster el) c =
     (if 0 \<le> fst c \<and> fst c < int (shape0 el) \<and> 0 \<le> snd c \<and> snd c < int (shape1 el)
      then Some (cells el (nat (fst c)) (nat (snd c))) else None)"
| "raster_value (Int_raster sg w el) c =
     (if 0 \<le> fst c \<and> fst c < int (shape0 el) \<and> 0 \<le> snd c \<and> snd c < int (shape1 el)
      then Some (real_of_int (cells el (nat (fst c)) (nat (snd c)))) else None)"

definition claimed_edge_cost :: "AStarPlanner \<Rightarrow> cell \<Rightarrow> cell \<Rightarrow> real option" where
  "claimed_edge_cost pl a b =
     (case elevation pl of
        None \<Rightarrow> Some (norm2 (fst b - fst a) (snd b - snd a))
      | Some el \<Rightarrow>
          (case raster_value el a of
             None \<Rightarrow> None
           | Some elev_a \<Rightarrow>
               (case raster_value el b of
                  None \<Rightarrow> None
                | Some elev_b \<Rightarrow>
                    Some (norm2 (fst b - fst a) (snd b - snd a)
                          + elevation_penalty pl * \<bar>elev_b - elev_a\<bar>))))"

fun claimed_path_cost :: "AStarPlanner \<Rightarrow> cell list \<Rightarrow> real option" where
  "claimed_path_cost pl [] = Some 0"
| "claimed_path_cost pl [a] = Some 0"
| "claimed_path_cost pl (a # b # rest) =
     (case claimed_edge_cost pl a b of
        None \<Rightarrow> None
      | Some e \<Rightarrow>
          (case claimed_path_cost pl (b # rest) of None \<Rightarrow> None | Some c \<Rightarrow> Some (e + c)))"

text \<open>
  The elevation term of the search is never negative when the penalty is not negative
  and the raster is not one of signed integers (whose wrapped absolute value can be
  negative).
\<close>

definition elevation_term_nonneg :: "AStarPlanner \<Rightarrow> bool" where
  "elevation_term_nonneg pl =
     (0 \<le> elevation_penalty pl \<and>
      (case elevation pl of
         None \<Rightarrow> True
       | Some (Float_raster el) \<Rightarrow> True
       | Some (Int_raster sg w el) \<Rightarrow> sg = False))"

text \<open>A cell lies in the elevation field, when there is one.\<close>

definition in_raster :: "AStarPlanner \<Rightarrow> cell \<Rightarrow> bool" where
  "in_raster pl a = (case elevation pl of None \<Rightarrow> True | Some el \<Rightarrow> raster_value el a \<noteq> None)"

definition float_or_no_raster :: "AStarPlanner \<Rightarrow> bool" where
  "float_or_no_raster pl =
     (case elevation pl of
        None \<Rightarrow> True
      | Some (Float_raster el) \<Rightarrow> True
      | Some (Int_raster sg w el) \<Rightarrow> False)"

text \<open>
  The invariant of the search tree: \<open>start\<close> is the root, every \<open>came_from\<close> link is a
  legal move from a visited cell whose own link leads on towards \<open>start\<close>, the scores add
  up along the links, and every cell in the heap is linked.
\<close>

definition tree_inv :: "AStarPlanner \<Rightarrow> cell \<Rightarrow> astar_state \<Rightarrow> bool" where
  "tree_inv pl start st =
     ((start \<in> visited st \<or> list_all (\<lambda>e. snd e = start) (open_set st)) \<and>
      g_score st start = Some 0 \<and> came_from st start = None \<and>
      (\<forall>n p. came_from st n = Some p \<longrightarrow>
         p \<in> visited st \<and> legal_move pl p n \<and> (p = start \<or> p \<in> dom (came_from st)) \<and>
         (\<exists>gp e. g_score st p = Some gp \<and> edge_cost pl p n = Some e \<and> g_score st n = Some (gp + e))) \<and>
      list_all (\<lambda>e. snd e = start \<or> snd e \<in> dom (came_from st)) (open_set st))"

text \<open>
  The heuristic of the search, the straight-line distance to \<open>goal\<close>; a route, that is a
  legal path between two cells together with its cost; and the invariant of the search
  used for optimality. In the invariant, every visited cell is scored, every score is
  the cost of some route from \<open>start\<close>, the score of a visited cell is at most the cost of
  any route to it, every legal edge from a visited to an unvisited cell has been relaxed
  unless it is in the set \<open>E\<close> of edges still to be relaxed, every scored unvisited cell
  is in the heap with its current f-score, and no heap entry is below the f-score of its
  cell.
\<close>

definition heuristic :: "cell \<Rightarrow> cell \<Rightarrow> real" where
  "heuristic goal n = norm2 (fst goal - fst n) (snd goal - snd n)"

definition route :: "AStarPlanner \<Rightarrow> cell \<Rightarrow> cell \<Rightarrow> cell list \<Rightarrow> real \<Rightarrow> bool" where
  "route pl a b p c = (p \<noteq> [] \<and> hd p = a \<and> last p = b \<and> legal_path pl p \<and> path_cost pl p = Some c)"

definition opt_inv :: "AStarPlanner \<Rightarrow> cell \<Rightarrow> cell \<Rightarrow> (cell \<times> cell) set \<Rightarrow> astar_state \<Rightarrow> bool" where
  "opt_inv pl start goal E st =
     (start \<in> visited st \<and>
      (\<forall>v \<in> visited st. g_score st v \<noteq> None) \<and>
      (\<forall>n gn. g_score st n = Some gn \<longrightarrow> (\<exists>p. route pl start n p gn)) \<and>
      (\<forall>v \<in> visited st. \<forall>p c. route pl start v p c \<longrightarrow> (\<exists>gv. g_score st v = Some gv \<and> gv \<le> c)) \<and>
      (\<forall>v \<in> visited st. \<forall>n e. n \<notin> visited st \<longrightarrow> (v, n) \<notin> E \<longrightarrow> legal_move pl v n \<longrightarrow>
          edge_cost pl v n = Some e \<longrightarrow>
          (\<exists>gv gn. g_score st v = Some gv \<and> g_score st n = Some gn \<and> gn \<le> gv + e)) \<and>
      (\<forall>n gn. n \<notin> visited st \<longrightarrow> g_score st n = Some gn \<longrightarrow>
          (gn + heuristic goal n, n) \<in> set (open_set st)) \<and>
      (\<forall>f n. (f, n) \<in> set (open_set st) \<longrightarrow> (\<exists>gn. g_score st n = Some gn \<and> gn + heuristic goal n \<le> f)))"

text \<open>The invariant at the head of the main loop.\<close>

definition search_inv :: "AStarPlanner \<Rightarrow> cell \<Rightarrow> cell \<Rightarrow> astar_state \<Rightarrow> bool" where
  "search_inv pl start goal st =
     (tree_inv pl start st \<and> (st = init_state start \<or> opt_inv pl start goal {} st))"

section \<open>Sampling planners: \<open>rrt_planner.py\<close> and \<open>rrt_star_planner.py\<close>\<close>

record RRT =
  rrt_map :: "real ndarray"
  step_size :: real
  max_iter :: nat

text \<open>
  \<open>RRT.steer\<close>. The quotient \<open>direction / dist\<close> is computed only past the guard; with
  \<open>dist = 0\<close> NumPy yields not-a-number coordinates, the outcome \<open>DivideByZero\<close> here.
\<close>

definition steer :: "RRT \<Rightarrow> point \<Rightarrow> point \<Rightarrow> error + point" where
  "steer r nearest sampled =
     (let dx = fst sampled - fst nearest; dy = snd sampled - snd nearest;
          dist = sqrt (dx * dx + dy * dy)
      in if dist \<le> step_size r then Inr sampled
         else if dist = 0 then Inl DivideByZero
         else Inr (fst nearest + dx / dist * step_size r,
                   snd nearest + dy / dist * step_size r))"

text \<open>Python's \<open>int(x)\<close> on a float truncates towards zero.\<close>

definition py_int :: "real \<Rightarrow> int" where
  "py_int x = (if 0 \<le> x then \<lfloor>x\<rfloor> else \<lceil>x\<rceil>)"

definition is_collision_free :: "RRT \<Rightarrow> point \<Rightarrow> bool" where
  "is_collision_free r p =
     (if fst p < 0 \<or> fst p \<ge> real (shape0 (rrt_map r)) \<or>
         snd p < 0 \<or> snd p \<ge> real (shape1 (rrt_map r))
      then False
      else cells (rrt_map r) (nat (py_int (fst p))) (nat (py_int (snd p))) = 0)"

record RRTStar =
  rs_map :: "real ndarray"
  rs_start :: point
  rs_goal :: point
  target_radius :: real
  delta :: real
  exploration_bias :: real
  max_nodes :: nat

definition world_x_min :: real where "world_x_min = - 2.16"
definition world_x_max :: real where "world_x_max = 2.42"
definition world_y_min :: real where "world_y_min = - 4.07"
definition world_y_max :: real where "world_y_max = 1.78"

definition world2map :: "RRTStar \<Rightarrow> real \<Rightarrow> real \<Rightarrow> int \<times> int" where
  "world2map rs xw yw =
     (let w1 = int (shape1 (rs_map rs)) - 1; h1 = int (shape0 (rs_map rs)) - 1;
          px = py_int ((xw - world_x_min) / (world_x_max - world_x_min) * real_of_int w1);
          py = py_int ((world_y_max - yw) / (world_y_max - world_y_min) * real_of_int h1)
      in (min (max px 0) w1, min (max py 0) h1))"

text \<open>
  \<open>RRTStar.is_valid_point\<close> up to its first unconditional \<open>return True\<close>; the edge
  check written after it is never reached, and \<open>parent\<close> is therefore unused.
\<close>

definition is_valid_point :: "RRTStar \<Rightarrow> point \<Rightarrow> bool" where
  "is_valid_point rs p =
     (let px = fst (world2map rs (fst p) (snd p)); py = snd (world2map rs (fst p) (snd p))
      in if \<not> (0 \<le> px \<and> px < int (shape1 (rs_map rs)) \<and> 0 \<le> py \<and> py < int (shape0 (rs_map rs)))
         then False
         else if cells (rs_map rs) (nat py) (nat px) = 0 then False
         else True)"

definition generate_new_point :: "RRTStar \<Rightarrow> point \<Rightarrow> point \<Rightarrow> point" where
  "generate_new_point rs nearest random_point =
     (let dx = fst random_point - fst nearest; dy = snd random_point - snd nearest;
          len = sqrt (dx * dx + dy * dy)
      in if len = 0 then nearest
         else
           (let step = min (delta rs) (len * 0.7);
                new_point_world = (fst nearest + dx / len * step, snd nearest + dy / len * step);
                new_point_map = world2map rs (fst new_point_world) (snd new_point_world)
            in if is_valid_point rs (real_of_int (fst new_point_map), real_of_int (snd new_point_map))
               then new_point_world else nearest))"

section \<open>The planner facade: \<open>path_planner_wrapper.py\<close>\<close>

datatype planner_class = AStarPlanner_class | RRT_class | RRTStar_class
  | GeoAwareRRT_class | GeoAwareRRTStar_class

definition PLANNER_MAP :: "string \<rightharpoonup> planner_class" where
  "PLANNER_MAP =
     [''astar'' \<mapsto> AStarPlanner_class, ''rrt'' \<mapsto> RRT_class, ''rrt*'' \<mapsto> RRTStar_class,
      ''geo_rrt'' \<mapsto> GeoAwareRRT_class, ''geo_rrt*'' \<mapsto> GeoAwareRRTStar_class]"

text \<open>
  The parameters of each class's \<open>__init__\<close> after \<open>self\<close>, in the order of the source:
  the name, and whether the parameter has a default.
\<close>

fun init_params :: "planner_class \<Rightarrow> (string \<times> bool) list" where
  "init_params AStarPlanner_class =
     [(''grid'', False), (''elevation'', True), (''elevation_penalty'', True), (''debug'', True)]"
| "init_params RRT_class =
     [(''occupancy_grid'', False), (''step_size'', True), (''max_iter'', True), (''debug'', True)]"
| "init_params RRTStar_class =
     [(''start'', False), (''goal'', False), (''map_path'', True), (''occupancy_grid'', True),
      (''target_radius'', True), (''delta'', True), (''exploration_bias'', True),
      (''max_nodes'', True)]"
| "init_params GeoAwareRRT_class =
     [(''grid'', False), (''transform'', False), (''elevation'', True),
      (''elevation_penalty'', True), (''step_size'', True), (''max_iter'', True),
      (''debug'', True)]"
| "init_params GeoAwareRRTStar_class =
     [(''occupancy_grid'', False), (''transform_func'', False), (''dem_func'', True)]"

text \<open>
  Python's binding of a call that passes keyword arguments only: a keyword that names no
  parameter, or a parameter without default that no keyword names, raises TypeError.
\<close>

definition bind_keywords :: "(string \<times> bool) list \<Rightarrow> string list \<Rightarrow> error + unit" where
  "bind_keywords params keywords =
     (if list_ex (\<lambda>k. k \<notin> set (map fst params)) keywords then Inl TypeError
      else if list_ex (\<lambda>p. \<not> snd p \<and> fst p \<notin> set keywords) params then Inl TypeError
      else Inr ())"

datatype planner_core = Instance AStarPlanner | Class_only planner_class

record PathPlannerWrapper =
  w_planner_type :: string
  w_grid :: "real ndarray"
  w_elevation :: "raster option"
  w_elevation_penalty :: real
  w_step_size :: real
  w_max_iter :: nat
  w_planner_core :: planner_core

text \<open>\<open>str.lower\<close> on ASCII letters.\<close>

definition lower_char :: "char \<Rightarrow> char" where
  "lower_char c =
     (case map_of (zip ''ABCDEFGHIJKLMNOPQRSTUVWXYZ'' ''abcdefghijklmnopqrstuvwxyz'') c of
        Some l \<Rightarrow> l
      | None \<Rightarrow> c)"

definition lower :: "string \<Rightarrow> string" where
  "lower s = map lower_char s"

definition wrapper_init :: "string \<Rightarrow> real ndarray \<Rightarrow> raster option \<Rightarrow> real \<Rightarrow> real \<Rightarrow> nat
    \<Rightarrow> error + PathPlannerWrapper" where
  "wrapper_init planner_type g el pen step iters =
     (let t = lower planner_type;
          w = \<lparr>w_planner_type = t, w_grid = g, w_elevation = el, w_elevation_penalty = pen,
               w_step_size = step, w_max_iter = iters,
               w_planner_core = Class_only AStarPlanner_class\<rparr>
      in if t = ''astar''
         then (case bind_keywords (init_params AStarPlanner_class)
                      [''grid'', ''elevation'', ''elevation_penalty'', ''debug''] of
                 Inl e \<Rightarrow> Inl e
               | Inr _ \<Rightarrow> Inr (w\<lparr>w_planner_core :=
                   Instance \<lparr>grid = g, elevation = el, elevation_penalty = pen\<rparr>\<rparr>))
         else (case PLANNER_MAP t of
                 Some cls \<Rightarrow> Inr (w\<lparr>w_planner_core := Class_only cls\<rparr>)
               | None \<Rightarrow> Inl ValueError))"

text \<open>
  \<open>find_segment_path\<close>. For the sampling variants the stored class is called with the
  five keywords of the source and \<open>plan()\<close> is called on the result; what \<open>plan()\<close>
  returns is the parameter \<open>plan\<close>.
\<close>

definition find_segment_path ::
  "(planner_class \<Rightarrow> cell \<Rightarrow> cell \<Rightarrow> (error + cell list option) option)
    \<Rightarrow> PathPlannerWrapper \<Rightarrow> cell \<Rightarrow> cell \<Rightarrow> (error + cell list option) option" where
  "find_segment_path plan w start goal =
     (if w_planner_type w = ''astar''
      then (case w_planner_core w of
              Instance pl \<Rightarrow> find_path pl start goal
            | Class_only _ \<Rightarrow> Some (Inl TypeError))
      else if w_planner_type w \<in> set [''rrt'', ''rrt*'', ''geo_rrt'', ''geo_rrt*'']
      then (case w_planner_core w of
              Class_only cls \<Rightarrow>
                (case bind_keywords (init_params cls)
                        [''start'', ''goal'', ''occupancy_grid'', ''step_size'', ''max_iter''] of
                   Inl e \<Rightarrow> Some (Inl e)
                 | Inr _ \<Rightarrow> plan cls start goal)
            | Instance _ \<Rightarrow> Some (Inl TypeError))
      else Some (Inl ValueError))"

section \<open>Tour solver: \<open>tsp_utils.py\<close>\<close>

definition euclidean :: "point \<Rightarrow> point \<Rightarrow> real" where
  "euclidean u v = sqrt ((fst u - fst v)\<^sup>2 + (snd u - snd v)\<^sup>2)"

text \<open>
  One distance of the cost matrix. The great-circle distance of \<open>geopy\<close> is the parameter
  \<open>geodesic\<close>.
\<close>

definition metric_dist :: "(point \<Rightarrow> point \<Rightarrow> real) \<Rightarrow> string \<Rightarrow> point \<Rightarrow> point \<Rightarrow> error + real" where
  "metric_dist geodesic metric p q =
     (if metric = ''euclidean'' then Inr (euclidean p q)
      else if metric = ''geodesic'' then Inr (geodesic p q)
      else Inl ValueError)"

definition set_entry :: "real list list \<Rightarrow> nat \<Rightarrow> nat \<Rightarrow> real \<Rightarrow> real list list" where
  "set_entry m i j d = m[i := (m ! i)[j := d]]"

text \<open>The inner loop \<open>for j in range(i)\<close> and the outer loop \<open>for i in range(n)\<close>.\<close>

fun cost_row :: "(point \<Rightarrow> point \<Rightarrow> real) \<Rightarrow> point list \<Rightarrow> string \<Rightarrow> nat \<Rightarrow> nat list
    \<Rightarrow> real list list \<Rightarrow> error + real list list" where
  "cost_row geodesic waypoints metric i [] m = Inr m"
| "cost_row geodesic waypoints metric i (j # js) m =
     (case metric_dist geodesic metric (waypoints ! i) (waypoints ! j) of
        Inl e \<Rightarrow> Inl e
      | Inr d \<Rightarrow>
          cost_row geodesic waypoints metric i js (set_entry (set_entry m i j d) j i d))"

fun cost_rows :: "(point \<Rightarrow> point \<Rightarrow> real) \<Rightarrow> point list \<Rightarrow> string \<Rightarrow> nat list
    \<Rightarrow> real list list \<Rightarrow> error + real list list" where
  "cost_rows geodesic waypoints metric [] m = Inr m"
| "cost_rows geodesic waypoints metric (i # is) m =
     (case cost_row geodesic waypoints metric i [0..<i] m of
        Inl e \<Rightarrow> Inl e
      | Inr m' \<Rightarrow> cost_rows geodesic waypoints metric is m')"

definition compute_cost_matrix :: "(point \<Rightarrow> point \<Rightarrow> real) \<Rightarrow> point list \<Rightarrow> string
    \<Rightarrow> error + real list list" where
  "compute_cost_matrix geodesic waypoints metric =
     (let n = length waypoints
      in cost_rows geodesic waypoints metric [0..<n] (replicate n (replicate n 0)))"

text \<open>
  \<open>build_graph_from_matrix\<close>: the weighted edges added, in order; the nodes of the graph
  are the end points of its edges.
\<close>

definition build_graph_from_matrix :: "real list list \<Rightarrow> (nat \<times> nat \<times> real) list" where
  "build_graph_from_matrix cost_matrix =
     concat (map (\<lambda>i. map (\<lambda>j. (i, j, cost_matrix ! i ! j)) [0..<i]) [0..<length cost_matrix])"

definition graph_nodes :: "(nat \<times> nat \<times> real) list \<Rightarrow> nat set" where
  "graph_nodes G = fst ` set G \<union> (fst \<circ> snd) ` set G"

text \<open>Reading \<open>cost_matrix[a][b]\<close> at indices that are not negative.\<close>

definition matrix_get :: "real list list \<Rightarrow> nat \<Rightarrow> nat \<Rightarrow> error + real" where
  "matrix_get m a b =
     (if a < length m then (if b < length (m ! a) then Inr (m ! a ! b) else Inl IndexError)
      else Inl IndexError)"

fun sum_costs :: "real list list \<Rightarrow> (nat \<times> nat) list \<Rightarrow> error + real" where
  "sum_costs m [] = Inr 0"
| "sum_costs m ((a, b) # rest) =
     (case matrix_get m a b of
        Inl e \<Rightarrow> Inl e
      | Inr c \<Rightarrow> (case sum_costs m rest of Inl e \<Rightarrow> Inl e | Inr t \<Rightarrow> Inr (c + t)))"

text \<open>
  \<open>solve_tsp_christofides\<close>. The tour is computed by
  \<open>networkx.algorithms.approximation.christofides\<close>, a library function, the parameter
  \<open>christofides\<close> here; the source adds the cost of the tour, closing it from its last to
  its first entry.
\<close>

definition solve_tsp_christofides ::
  "((nat \<times> nat \<times> real) list \<Rightarrow> error + nat list) \<Rightarrow> real list list \<Rightarrow> error + nat list \<times> real" where
  "solve_tsp_christofides christofides cost_matrix =
     (case christofides (build_graph_from_matrix cost_matrix) of
        Inl e \<Rightarrow> Inl e
      | Inr tsp_tour \<Rightarrow>
          (case sum_costs cost_matrix (zip tsp_tour (tl tsp_tour)) of
             Inl e \<Rightarrow> Inl e
           | Inr tour_cost \<Rightarrow>
               (if tsp_tour = [] then Inl IndexError
                else (case matrix_get cost_matrix (last tsp_tour) (hd tsp_tour) of
                        Inl e \<Rightarrow> Inl e
                      | Inr c \<Rightarrow> Inr (tsp_tour, tour_cost + c)))))"

section \<open>Trajectory synthesis: \<open>simulation_controller.py\<close>\<close>

text \<open>
  An affine transform of the \<open>affine\<close> package: \<open>t * (x, y)\<close> and the inverse \<open>~t\<close>,
  which raises when the determinant is zero.
\<close>

record affine =
  af_a :: real
  af_b :: real
  af_c :: real
  af_d :: real
  af_e :: real
  af_f :: real

definition affine_apply :: "affine \<Rightarrow> point \<Rightarrow> point" where
  "affine_apply t p =
     (af_a t * fst p + af_b t * snd p + af_c t, af_d t * fst p + af_e t * snd p + af_f t)"

definition affine_invert :: "affine \<Rightarrow> error + affine" where
  "affine_invert t =
     (let det = af_a t * af_e t - af_b t * af_d t
      in if det = 0 then Inl TransformNotInvertible
         else
           (let ra = af_e t / det; rb = - af_b t / det; rd = - af_d t / det; re = af_a t / det
            in Inr \<lparr>af_a = ra, af_b = rb, af_c = - af_c t * ra - af_f t * rb,
                    af_d = rd, af_e = re, af_f = - af_c t * rd - af_f t * re\<rparr>))"

record sim_state =
  lat :: real
  lon :: real
  alt :: real
  heading :: real

record GPSPoint =
  ts :: real
  p_lat :: real
  p_lon :: real
  p_alt :: real
  agl :: "real option"
  p_heading :: real

record trace =
  drone_id :: string
  data :: "GPSPoint list"

text \<open>
  The controller's fields that synthesis reads, a waypoint being its (lat, lon) pair, and
  the library functions it calls, as parameters: \<open>planner\<close> is
  \<open>self.planner.find_segment_path\<close>; \<open>geod_inv\<close> and \<open>geod_fwd\<close> are \<open>Geod.inv\<close> and
  \<open>Geod.fwd\<close> of \<open>pyproj\<close> (longitude first; \<open>inv\<close> returns the forward azimuth, the back
  azimuth and the distance; \<open>fwd\<close> returns the new longitude, latitude and back azimuth);
  \<open>geodesic_m\<close> is \<open>geodesic(p, q).meters\<close> of \<open>geopy\<close>; \<open>rowcol\<close> is \<open>rowcol\<close> of
  \<open>rasterio\<close> for the controller's transform; \<open>utcnow k\<close> is what the \<open>k\<close>-th call of
  \<open>datetime.utcnow()\<close> in a run returns.
\<close>

record SimulationController =
  waypoints :: "point list"
  transform :: affine
  sc_elevation :: "real ndarray"
  speed_mps :: real
  interval_ms :: real
  gps_noise_std :: real
  start_lat :: real
  start_lon :: real
  sc_drone_id :: string
  planner :: "cell \<Rightarrow> cell \<Rightarrow> (error + cell list option) option"
  geod_inv :: "real \<Rightarrow> real \<Rightarrow> real \<Rightarrow> real \<Rightarrow> real \<times> real \<times> real"
  geod_fwd :: "real \<Rightarrow> real \<Rightarrow> real \<Rightarrow> real \<Rightarrow> real \<times> real \<times> real"
  geodesic_m :: "point \<Rightarrow> point \<Rightarrow> real"
  rowcol :: "real \<Rightarrow> real \<Rightarrow> int \<times> int"
  utcnow :: "nat \<Rightarrow> real"

text \<open>\<open>safe_dem_func\<close>: an elevation lookup that answers 0.0 on IndexError.\<close>

definition dem_func :: "SimulationController \<Rightarrow> real \<Rightarrow> real \<Rightarrow> real" where
  "dem_func c la lo =
     (case np_get (sc_elevation c) (fst (rowcol c lo la)) (snd (rowcol c lo la)) of
        Inl _ \<Rightarrow> 0
      | Inr v \<Rightarrow> v)"

text \<open>Python's \<open>x % m\<close> on floats, for a positive \<open>m\<close>.\<close>

definition py_mod :: "real \<Rightarrow> real \<Rightarrow> real" where
  "py_mod x m = x - m * of_int \<lfloor>x / m\<rfloor>"

definition compute_heading :: "SimulationController \<Rightarrow> real \<Rightarrow> real \<Rightarrow> real \<Rightarrow> real \<Rightarrow> real" where
  "compute_heading c lat1 lon1 lat2 lon2 = py_mod (fst (geod_inv c lon1 lat1 lon2 lat2) + 360) 360"

definition grid_to_latlon :: "SimulationController \<Rightarrow> cell \<Rightarrow> point" where
  "grid_to_latlon c rc =
     (let xy = affine_apply (transform c) (real_of_int (snd rc), real_of_int (fst rc))
      in (snd xy, fst xy))"

text \<open>\<open>_build_path\<close>: each waypoint as a grid cell, clamped into the elevation grid.\<close>

fun waypoint_cells :: "SimulationController \<Rightarrow> point list \<Rightarrow> error + cell list" where
  "waypoint_cells c [] = Inr []"
| "waypoint_cells c (wp # wps) =
     (case affine_invert (transform c) of
        Inl e \<Rightarrow> Inl e
      | Inr inverse_t \<Rightarrow>
          (let cr = affine_apply inverse_t (snd wp, fst wp);
               row = min (max \<lfloor>snd cr\<rfloor> 0) (int (shape0 (sc_elevation c)) - 1);
               col = min (max \<lfloor>fst cr\<rfloor> 0) (int (shape1 (sc_elevation c)) - 1)
           in case waypoint_cells c wps of
                Inl e \<Rightarrow> Inl e
              | Inr rcs \<Rightarrow> Inr ((row, col) # rcs)))"

definition build_path :: "SimulationController \<Rightarrow> error + cell list" where
  "build_path c = waypoint_cells c (waypoints c)"

definition step_towards :: "SimulationController \<Rightarrow> sim_state \<Rightarrow> point \<Rightarrow> sim_state" where
  "step_towards c state target =
     (let azimuth = fst (geod_inv c (lon state) (lat state) (snd target) (fst target));
          distance_to_move = speed_mps c * (interval_ms c / 1000);
          moved = geod_fwd c (lon state) (lat state) azimuth distance_to_move;
          new_lon = fst moved; new_lat = fst (snd moved)
      in \<lparr>lat = new_lat, lon = new_lon, alt = dem_func c new_lat new_lon, heading = azimuth\<rparr>)"

definition has_arrived :: "SimulationController \<Rightarrow> sim_state \<Rightarrow> point \<Rightarrow> bool" where
  "has_arrived c state target = (geodesic_m c (lat state, lon state) target \<le> 2)"

definition get_start_location :: "SimulationController \<Rightarrow> sim_state" where
  "get_start_location c =
     \<lparr>lat = start_lat c, lon = start_lon c, alt = dem_func c (start_lat c) (start_lon c),
      heading = 0\<rparr>"

definition gps_point :: "real \<Rightarrow> sim_state \<Rightarrow> GPSPoint" where
  "gps_point t state =
     \<lparr>ts = t, p_lat = lat state, p_lon = lon state, p_alt = alt state, agl = None,
      p_heading = heading state\<rparr>"

text \<open>
  The loop \<open>while not self.has_arrived(state, target)\<close>. It need not end, so its result
  is an \<open>option\<close>. Each pass appends one point, stamped with the clock reading of that
  moment: the reading number is the number of points appended so far.
\<close>

partial_function (option) approach :: "SimulationController \<Rightarrow> point \<Rightarrow> sim_state \<times> GPSPoint list
    \<Rightarrow> (sim_state \<times> GPSPoint list) option" where
  "approach c target sp =
     (if has_arrived c (fst sp) target then Some sp
      else approach c target
             (step_towards c (fst sp) target,
              snd sp @ [gps_point (utcnow c (length (snd sp))) (step_towards c (fst sp) target)]))"

text \<open>The loop over the targets of one segment.\<close>

fun follow :: "SimulationController \<Rightarrow> point list \<Rightarrow> sim_state \<times> GPSPoint list
    \<Rightarrow> (sim_state \<times> GPSPoint list) option" where
  "follow c [] sp = Some sp"
| "follow c (target # targets) sp =
     (case approach c target sp of
        None \<Rightarrow> None
      | Some sp' \<Rightarrow> follow c targets sp')"

text \<open>
  The loop over the consecutive waypoint pairs. \<open>not segment_rc\<close> holds for the absent
  path and for the empty list.
\<close>

fun segments :: "SimulationController \<Rightarrow> (cell \<times> cell) list \<Rightarrow> sim_state \<times> GPSPoint list
    \<Rightarrow> (error + sim_state \<times> GPSPoint list) option" where
  "segments c [] sp = Some (Inr sp)"
| "segments c ((start_rc, goal_rc) # rest) sp =
     (case planner c start_rc goal_rc of
        None \<Rightarrow> None
      | Some (Inl e) \<Rightarrow> Some (Inl e)
      | Some (Inr None) \<Rightarrow> segments c rest sp
      | Some (Inr (Some segment_rc)) \<Rightarrow>
          (if segment_rc = [] then segments c rest sp
           else (case follow c (map (grid_to_latlon c) segment_rc) sp of
                   None \<Rightarrow> None
                 | Some sp' \<Rightarrow> segments c rest sp')))"

definition run_simulation :: "SimulationController \<Rightarrow> (error + trace) option" where
  "run_simulation c =
     (case build_path c of
        Inl e \<Rightarrow> Some (Inl e)
      | Inr waypoints_rc \<Rightarrow>
          (if length waypoints_rc < 2 then Some (Inl ValueError)
           else (case segments c (zip waypoints_rc (tl waypoints_rc)) (get_start_location c, []) of
                   None \<Rightarrow> None
                 | Some (Inl e) \<Rightarrow> Some (Inl e)
                 | Some (Inr sp) \<Rightarrow> Some (Inr \<lparr>drone_id = sc_drone_id c, data = snd sp\<rparr>))))"

text \<open>
  \<open>interpolate_segment\<close>, the other producer of trajectory samples in the controller;
  \<open>run_simulation\<close> does not call it. It is the only code of the controller that draws
  random numbers. \<open>np.random.normal\<close> reads NumPy's global generator: the state of the
  generator is the sequence \<open>rng\<close> of standard normal variates it will yield from now
  on, and a draw of \<open>n\<close> values consumes the first \<open>n\<close> of them.
\<close>

record segment_sample =
  timestamp_ms :: real
  s_lat :: real
  s_lon :: real
  s_alt :: real
  s_heading :: real

definition sigmoid :: "real \<Rightarrow> real" where
  "sigmoid x = 1 / (1 + exp (- x))"

definition linspace :: "real \<Rightarrow> real \<Rightarrow> nat \<Rightarrow> real list" where
  "linspace a b n =
     (if n = 1 then [a] else map (\<lambda>i. a + real i * ((b - a) / real (n - 1))) [0..<n])"

definition normal :: "(nat \<Rightarrow> real) \<Rightarrow> real \<Rightarrow> real \<Rightarrow> nat \<Rightarrow> error + real list \<times> (nat \<Rightarrow> real)" where
  "normal rng loc scale n =
     (if scale < 0 then Inl ValueError
      else Inr (map (\<lambda>i. loc + scale * rng i) [0..<n], \<lambda>i. rng (i + n)))"

definition interpolate_segment :: "SimulationController \<Rightarrow> (nat \<Rightarrow> real) \<Rightarrow> real \<times> real \<times> real
    \<Rightarrow> real \<times> real \<times> real \<Rightarrow> error + segment_sample list \<times> (nat \<Rightarrow> real)" where
  "interpolate_segment c rng p1 p2 =
     (let lat1 = fst p1; lon1 = fst (snd p1); lat2 = fst p2; lon2 = fst (snd p2);
          distance = geodesic_m c (lat1, lon1) (lat2, lon2)
      in if speed_mps c = 0 then Inl ZeroDivisionError
         else if interval_ms c = 0 then Inl ZeroDivisionError
         else
           (let duration_s = distance / speed_mps c;
                steps = \<lfloor>duration_s * 1000 / interval_ms c\<rfloor>
            in if steps < 0 then Inl ValueError
               else
                 (let eased = map sigmoid (linspace (- 6) 6 (nat steps))
                  in case normal rng 0 (gps_noise_std c) (nat steps) of
                       Inl e \<Rightarrow> Inl e
                     | Inr (noise_lat, rng1) \<Rightarrow>
                         (case normal rng1 0 (gps_noise_std c) (nat steps) of
                            Inl e \<Rightarrow> Inl e
                          | Inr (noise_lon, rng2) \<Rightarrow>
                              (let lats = map2 (\<lambda>e n. lat1 + (lat2 - lat1) * e + n) eased noise_lat;
                                   lons = map2 (\<lambda>e n. lon1 + (lon2 - lon1) * e + n) eased noise_lon;
                                   alts = map2 (dem_func c) lats lons;
                                   heading = compute_heading c lat1 lon1 lat2 lon2
                               in Inr (map (\<lambda>i. \<lparr>timestamp_ms = real i * interval_ms c,
                                                    s_lat = lats ! i, s_lon = lons ! i,
                                                    s_alt = alts ! i, s_heading = heading\<rparr>)
                                            [0..<nat steps],
                                       rng2))))))"

text \<open>
  Constructing the facade for a variant name and planning one segment with it, as the
  callers do; the arguments are those of \<open>PathPlannerWrapper.__init__\<close>.
\<close>

definition plan_segment ::
  "(planner_class \<Rightarrow> cell \<Rightarrow> cell \<Rightarrow> (error + cell list option) option)
    \<Rightarrow> string \<Rightarrow> real ndarray \<Rightarrow> raster option \<Rightarrow> real \<Rightarrow> real \<Rightarrow> nat \<Rightarrow> cell \<Rightarrow> cell
    \<Rightarrow> (error + cell list option) option" where
  "plan_segment plan planner_type g el pen step iters start goal =
     (case wrapper_init planner_type g el pen step iters of
        Inl e \<Rightarrow> Some (Inl e)
      | Inr w \<Rightarrow> find_segment_path plan w start goal)"

text \<open>A trace with its timestamps erased, for comparing two runs.\<close>

definition untimed :: "GPSPoint \<Rightarrow> GPSPoint" where
  "untimed p = p\<lparr>ts := 0\<rparr>"

text \<open>The points a run handed back; none when it raised or did not return.\<close>

definition emitted :: "(error + trace) option \<Rightarrow> GPSPoint list" where
  "emitted r = (case r of Some (Inr tr) \<Rightarrow> data tr | _ \<Rightarrow> [])"

definition untimed_run :: "(error + trace) option \<Rightarrow> (error + trace) option" where
  "untimed_run r = map_option (map_sum id (\<lambda>tr. tr\<lparr>data := map untimed (data tr)\<rparr>)) r"

definition same_track :: "sim_state \<times> GPSPoint list \<Rightarrow> sim_state \<times> GPSPoint list \<Rightarrow> bool" where
  "same_track sp1 sp2 = (fst sp1 = fst sp2 \<and> map untimed (snd sp1) = map untimed (snd sp2))"

section \<open>Concrete inputs\<close>

text \<open>
  Small inputs on which the definitions are evaluated below: a one-cell map holding a
  given value, planners with the defaults of the source, and controllers on a flat
  stand-in for the geodesic library in which positions lie on one line, one unit of
  longitude is one metre, and the bearing is -90 degrees westwards and 90 degrees
  eastwards, as \<open>Geod.inv\<close> reports bearings in \<open>[-180, 180]\<close>.
\<close>

definition unit_map :: "real \<Rightarrow> real ndarray" where
  "unit_map v = \<lparr>shape0 = 1, shape1 = 1, cells = (\<lambda>r c. v)\<rparr>"

definition rrt_star_on :: "real ndarray \<Rightarrow> RRTStar" where
  "rrt_star_on m = \<lparr>rs_map = m, rs_start = (0, 0), rs_goal = (1, 1), target_radius = 1,
     delta = 3, exploration_bias = 0.8, max_nodes = 100\<rparr>"

definition rrt_on :: "real ndarray \<Rightarrow> real \<Rightarrow> RRT" where
  "rrt_on m step = \<lparr>rrt_map = m, step_size = step, max_iter = 1000\<rparr>"

definition flat_controller :: "point list \<Rightarrow> (cell \<Rightarrow> cell \<Rightarrow> (error + cell list option) option)
    \<Rightarrow> (nat \<Rightarrow> real) \<Rightarrow> SimulationController" where
  "flat_controller wps pln clock =
    \<lparr>waypoints = wps,
     transform = \<lparr>af_a = 1, af_b = 0, af_c = 0, af_d = 0, af_e = 1, af_f = 0\<rparr>,
     sc_elevation = \<lparr>shape0 = 1, shape1 = 4, cells = (\<lambda>r c. 0)\<rparr>,
     speed_mps = 2, interval_ms = 1000, gps_noise_std = 1 / 100000, start_lat = 0, start_lon = 3,
     sc_drone_id = ''drone_1'',
     planner = pln,
     geod_inv = (\<lambda>lon1 lat1 lon2 lat2.
        (if lon2 < lon1 then - 90 else 90, if lon2 < lon1 then 90 else - 90, \<bar>lon2 - lon1\<bar>)),
     geod_fwd = (\<lambda>lo la az d. (if az < 0 then lo - d else lo + d, la, 0)),
     geodesic_m = (\<lambda>p q. \<bar>snd p - snd q\<bar>),
     rowcol = (\<lambda>x y. (\<lfloor>y\<rfloor>, \<lfloor>x\<rfloor>)),
     utcnow = clock\<rparr>"

definition straight_planner :: "cell \<Rightarrow> cell \<Rightarrow> (error + cell list option) option" where
  "straight_planner s g = Some (Inr (Some [s, g]))"

definition blocked_first_planner :: "cell \<Rightarrow> cell \<Rightarrow> (error + cell list option) option" where
  "blocked_first_planner s g = (if s = (0, 0) then Some (Inr None) else Some (Inr (Some [s, g])))"

definition west_controller :: SimulationController where
  "west_controller = flat_controller [(0, 3), (0, 0)] straight_planner (\<lambda>k. real k)"

definition late_controller :: SimulationController where
  "late_controller = flat_controller [(0, 3), (0, 0)] straight_planner (\<lambda>k. real k + 60)"

definition skipping_controller :: SimulationController where
  "skipping_controller = flat_controller [(0, 0), (0, 3), (0, 0)] blocked_first_planner (\<lambda>k. real k)"

definition corridor :: AStarPlanner where
  "corridor = \<lparr>grid = \<lparr>shape0 = 1, shape1 = 2, cells = (\<lambda>r c. 0)\<rparr>, elevation = None,
     elevation_penalty = 1\<rparr>"

text \<open>
  A 2 by 3 grid without obstacles whose elevation raster holds unsigned 8-bit integers:
  10 everywhere but 9 at row 0, column 1.
\<close>

definition dip_raster :: raster where
  "dip_raster = Int_raster False 8
     \<lparr>shape0 = 2, shape1 = 3, cells = (\<lambda>r c. if r = 0 \<and> c = 1 then 9 else 10)\<rparr>"

definition dip_planner :: AStarPlanner where
  "dip_planner = \<lparr>grid = \<lparr>shape0 = 2, shape1 = 3, cells = (\<lambda>r c. 0)\<rparr>,
     elevation = Some dip_raster, elevation_penalty = 1 / 8\<rparr>"

lemmas flat_eval = run_simulation_def build_path_def flat_controller_def affine_invert_def
  affine_apply_def get_start_location_def dem_func_def np_get_def grid_to_latlon_def approach.simps
  has_arrived_def step_towards_def gps_point_def Let_def straight_planner_def blocked_first_planner_def

section \<open>Planner facade\<close>

lemma facade_astar_delegates: "plan_segment plan ''astar'' g el pen step iters start goal
   = find_path \<lparr>grid = g, elevation = el, elevation_penalty = pen\<rparr> start goal"
  by (simp add: plan_segment_def wrapper_init_def lower_def lower_char_def PLANNER_MAP_def
      find_segment_path_def bind_keywords_def)

text \<open>
  Claim C1. The claim says that for each of the five variant names, constructing the
  facade and calling \<open>find_segment_path\<close> invokes the variant and returns a path or
  absent. The code does so for \<open>astar\<close> only: for \<open>rrt\<close>, \<open>rrt*\<close>, \<open>geo_rrt\<close> and
  \<open>geo_rrt*\<close> the call of the stored class with the keywords \<open>start\<close>, \<open>goal\<close>,
  \<open>occupancy_grid\<close>, \<open>step_size\<close>, \<open>max_iter\<close> matches no constructor and raises
  TypeError, whatever the grid, the query and the result of \<open>plan()\<close> would be.
\<close>

theorem sampling_variants_raise_TypeError:
  "plan_segment plan ''rrt'' g el pen step iters start goal = Some (Inl TypeError) \<and>
   plan_segment plan ''rrt*'' g el pen step iters start goal = Some (Inl TypeError) \<and>
   plan_segment plan ''geo_rrt'' g el pen step iters start goal = Some (Inl TypeError) \<and>
   plan_segment plan ''geo_rrt*'' g el pen step iters start goal = Some (Inl TypeError)"
  by (simp add: plan_segment_def wrapper_init_def lower_def lower_char_def PLANNER_MAP_def
      find_segment_path_def bind_keywords_def)

section \<open>Occupancy convention\<close>

lemma get_neighbors_iff:
  "(n, w) \<in> set (get_neighbors pl pos) \<longleftrightarrow>
   (\<exists>dx dy. (dx, dy) \<in> set directions \<and> n = (fst pos + dx, snd pos + dy) \<and> w = norm2 dx dy
      \<and> in_bounds (grid pl) n \<and> is_free (grid pl) n)"
  by (auto simp: get_neighbors_def Let_def split: if_splits)

lemma world2map_range:
  "0 < shape0 (rs_map rs) \<Longrightarrow> 0 < shape1 (rs_map rs) \<Longrightarrow>
   0 \<le> fst (world2map rs x y) \<and> fst (world2map rs x y) < int (shape1 (rs_map rs)) \<and>
   0 \<le> snd (world2map rs x y) \<and> snd (world2map rs x y) < int (shape0 (rs_map rs))"
  by (auto simp: world2map_def Let_def)

text \<open>
  Claim C3, as stated, fails for RRTStar: on a one-cell map, the cell holding 0 makes
  \<open>is_valid_point\<close> reject the point, and the cell holding 1 makes it accept the point.
\<close>

theorem rrt_star_zero_cell_blocked:
  "cells (rs_map (rrt_star_on (unit_map 0))) 0 0 = 0 \<and>
   world2map (rrt_star_on (unit_map 0)) 0 0 = (0, 0) \<and>
   is_valid_point (rrt_star_on (unit_map 0)) (0, 0) = False \<and>
   cells (rs_map (rrt_star_on (unit_map 1))) 0 0 = 1 \<and>
   world2map (rrt_star_on (unit_map 1)) 0 0 = (0, 0) \<and>
   is_valid_point (rrt_star_on (unit_map 1)) (0, 0) = True"
  by (simp add: rrt_star_on_def unit_map_def is_valid_point_def world2map_def py_int_def)

text \<open>
  Claim C3, amended. AStarPlanner yields an in-bounds candidate neighbour exactly when
  its cell holds 0, and RRT accepts an in-bounds point exactly when its cell holds 0;
  RRTStar accepts a point exactly when the cell it maps to holds a nonzero value: for
  RRTStar 0 is an obstacle.
\<close>

theorem occupancy_conventions:
  "((dx, dy) \<in> set directions \<and> in_bounds (grid pl) (fst pos + dx, snd pos + dy) \<longrightarrow>
      (((fst pos + dx, snd pos + dy), norm2 dx dy) \<in> set (get_neighbors pl pos)
        \<longleftrightarrow> cells (grid pl) (nat (fst pos + dx)) (nat (snd pos + dy)) = 0)) \<and>
   (0 \<le> fst p \<and> fst p < real (shape0 (rrt_map r)) \<and> 0 \<le> snd p \<and> snd p < real (shape1 (rrt_map r)) \<longrightarrow>
      (is_collision_free r p \<longleftrightarrow> cells (rrt_map r) (nat \<lfloor>fst p\<rfloor>) (nat \<lfloor>snd p\<rfloor>) = 0)) \<and>
   (0 < shape0 (rs_map rs) \<and> 0 < shape1 (rs_map rs) \<longrightarrow>
      (is_valid_point rs q \<longleftrightarrow>
         cells (rs_map rs) (nat (snd (world2map rs (fst q) (snd q))))
                           (nat (fst (world2map rs (fst q) (snd q)))) \<noteq> 0))"
proof (intro conjI impI)
  assume h: "(dx, dy) \<in> set directions \<and> in_bounds (grid pl) (fst pos + dx, snd pos + dy)"
  show "((fst pos + dx, snd pos + dy), norm2 dx dy) \<in> set (get_neighbors pl pos)
        \<longleftrightarrow> cells (grid pl) (nat (fst pos + dx)) (nat (snd pos + dy)) = 0"
    using h by (auto simp: get_neighbors_iff is_free_def)
next
  assume "0 \<le> fst p \<and> fst p < real (shape0 (rrt_map r)) \<and> 0 \<le> snd p \<and> snd p < real (shape1 (rrt_map r))"
  then show "is_collision_free r p \<longleftrightarrow> cells (rrt_map r) (nat \<lfloor>fst p\<rfloor>) (nat \<lfloor>snd p\<rfloor>) = 0"
    by (simp add: is_collision_free_def py_int_def)
next
  assume "0 < shape0 (rs_map rs) \<and> 0 < shape1 (rs_map rs)"
  then show "is_valid_point rs q \<longleftrightarrow>
         cells (rs_map rs) (nat (snd (world2map rs (fst q) (snd q))))
                           (nat (fst (world2map rs (fst q) (snd q)))) \<noteq> 0"
    using world2map_range[of rs "fst q" "snd q"] by (simp add: is_valid_point_def Let_def)
qed

theorem occupancy_conventions_witness:
  "((0, 1) \<in> set directions \<and> in_bounds (grid corridor) (fst (0, 0) + 0, snd (0, 0) + 1)) \<and>
   ((0, 1), norm2 0 1) \<in> set (get_neighbors corridor (0, 0)) \<and>
   cells (grid corridor) 0 1 = 0 \<and>
   (0 \<le> fst (1 / 2 :: real, 1 / 2 :: real) \<and>
      fst (1 / 2 :: real, 1 / 2 :: real) < real (shape0 (rrt_map (rrt_on (unit_map 0) 1)))) \<and>
   is_collision_free (rrt_on (unit_map 0) 1) (1 / 2, 1 / 2) \<and>
   (0 < shape0 (rs_map (rrt_star_on (unit_map 1))) \<and> 0 < shape1 (rs_map (rrt_star_on (unit_map 1)))) \<and>
   is_valid_point (rrt_star_on (unit_map 1)) (0, 0)"
  using occupancy_conventions[where dx = 0 and dy = 1 and pl = corridor and pos = "(0, 0)"
      and r = "rrt_on (unit_map 0) 1" and p = "(1 / 2, 1 / 2)"
      and rs = "rrt_star_on (unit_map 1)" and q = "(0, 0)"]
  by (simp add: directions_def in_bounds_def corridor_def rrt_on_def unit_map_def rrt_star_on_def
      world2map_def py_int_def)

section \<open>Tour solver\<close>

lemma cost_row_raises:
  "metric \<noteq> ''euclidean'' \<Longrightarrow> metric \<noteq> ''geodesic'' \<Longrightarrow> js \<noteq> [] \<Longrightarrow>
   cost_row geodesic wps metric i js m = Inl ValueError"
  by (cases js) (simp_all add: metric_dist_def)

lemma cost_rows_raises:
  "metric \<noteq> ''euclidean'' \<Longrightarrow> metric \<noteq> ''geodesic'' \<Longrightarrow> \<exists>i \<in> set is. 0 < i \<Longrightarrow>
   cost_rows geodesic wps metric is m = Inl ValueError"
proof (induction "is" arbitrary: m)
  case Nil
  then show ?case by simp
next
  case (Cons i "is")
  show ?case
  proof (cases "i = 0")
    case True
    with Cons show ?thesis by simp
  next
    case False
    then have "[0..<i] \<noteq> []" by simp
    from cost_row_raises[OF Cons.prems(1,2) this] show ?thesis by simp
  qed
qed

lemma compute_cost_matrix_raises:
  assumes "metric \<noteq> ''euclidean''" "metric \<noteq> ''geodesic''" "2 \<le> length wps"
  shows "compute_cost_matrix geodesic wps metric = Inl ValueError"
proof -
  have "\<exists>i \<in> set [0..<length wps]. 0 < i" using assms(3) by (intro bexI[of _ 1]) auto
  from cost_rows_raises[OF assms(1,2) this] show ?thesis by (simp add: compute_cost_matrix_def)
qed

text \<open>
  Claim C9. The claim says that every waypoint list with an unsupported metric name
  raises. The test of the metric name sits inside the inner loop, which a list of fewer
  than two waypoints never enters: such a list returns a matrix for any metric name.
\<close>

theorem short_list_unsupported_metric_returns:
  "compute_cost_matrix geodesic [(0, 0)] ''manhattan'' = Inr [[0]] \<and>
   compute_cost_matrix geodesic [] ''manhattan'' = Inr []"
  by (simp add: compute_cost_matrix_def)

text \<open>
  The tour that \<open>solve_tsp_christofides\<close> returns is the list the library function
  returned for the graph of the matrix, unchanged. Whether that list holds every index
  once, and how long it is (claim C4), is therefore a property of the library function
  and not of this code. The graph of a matrix for fewer than two waypoints has no node.
\<close>

lemma solve_tsp_tour_is_library_result:
  "solve_tsp_christofides christofides cost_matrix = Inr (tour, c) \<Longrightarrow>
   christofides (build_graph_from_matrix cost_matrix) = Inr tour"
  by (auto simp: solve_tsp_christofides_def split: sum.splits if_splits)

lemma single_waypoint_graph_empty:
  "length cost_matrix \<le> 1 \<Longrightarrow> graph_nodes (build_graph_from_matrix cost_matrix) = {}"
  by (cases cost_matrix) (auto simp: build_graph_from_matrix_def graph_nodes_def)

section \<open>Degenerate steering\<close>

text \<open>
  Claim C10, as stated, fails for \<open>RRT.steer\<close> with a negative step size: the guard
  \<open>dist <= step_size\<close> is then false at distance zero and the direction is divided by
  the zero distance.
\<close>

theorem steer_negative_step_divides_by_zero: "steer (rrt_on (unit_map 0) (- 1)) (0, 0) (0, 0) = Inl DivideByZero"
  by (simp add: steer_def rrt_on_def)

text \<open>
  Claim C10, amended. With a non-negative step size, \<open>RRT.steer\<close> from a point to itself
  returns the sampled point, without dividing; and \<open>RRTStar.generate_new_point\<close> from a
  point to itself returns the nearest node.
\<close>

theorem zero_length_steering:
  "(0 \<le> step_size r \<longrightarrow> steer r p p = Inr p) \<and> generate_new_point rs p p = p"
  by (simp add: steer_def generate_new_point_def)

theorem zero_length_steering_witness:
  "0 \<le> step_size (rrt_on (unit_map 0) 1) \<and> steer (rrt_on (unit_map 0) 1) (2, 3) (2, 3) = Inr (2, 3)
   \<and> generate_new_point (rrt_star_on (unit_map 1)) (2, 3) (2, 3) = (2, 3)"
  using zero_length_steering[of "rrt_on (unit_map 0) 1" "(2, 3)" "rrt_star_on (unit_map 1)"]
  by (simp add: rrt_on_def)

section \<open>Trajectory synthesis\<close>

lemma step_towards_heading:
  "heading (step_towards c state target)
     = fst (geod_inv c (lon state) (lat state) (snd target) (fst target))"
  by (simp add: step_towards_def Let_def)

lemma compute_heading_range:
  "0 \<le> compute_heading c lat1 lon1 lat2 lon2 \<and> compute_heading c lat1 lon1 lat2 lon2 < 360"
proof -
  define x where "x = fst (geod_inv c lon1 lat1 lon2 lat2) + 360"
  have "of_int \<lfloor>x / 360\<rfloor> \<le> x / 360" "x / 360 < of_int \<lfloor>x / 360\<rfloor> + 1" by linarith+
  then have "0 \<le> x - 360 * of_int \<lfloor>x / 360\<rfloor> \<and> x - 360 * of_int \<lfloor>x / 360\<rfloor> < 360"
    by (simp add: field_simps)
  then show ?thesis by (simp add: compute_heading_def py_mod_def x_def)
qed

text \<open>
  Claim C6. The claim says that every emitted heading lies in \<open>[0, 360)\<close>.
  \<open>compute_heading\<close> normalises the bearing into that interval, but \<open>run_simulation\<close>
  emits the heading of \<open>step_towards\<close>, which is the raw forward azimuth: a drone flying
  west is recorded with heading -90.
\<close>

theorem westward_heading_negative:
  "run_simulation west_controller =
     Some (Inr \<lparr>drone_id = ''drone_1'',
                data = [\<lparr>ts = 0, p_lat = 0, p_lon = 1, p_alt = 0, agl = None, p_heading = - 90\<rparr>]\<rparr>)"
  by (simp add: west_controller_def flat_eval)

lemma segments_skip:
  "planner c s g = Some (Inr None) \<Longrightarrow>
   segments c (pre @ (s, g) # post) sp = segments c (pre @ post) sp"
proof (induction pre arbitrary: sp)
  case Nil
  then show ?case by simp
next
  case (Cons p pre)
  obtain a b where p: "p = (a, b)" by (cases p)
  show ?case using Cons
    by (simp add: p split: option.splits sum.splits)
qed

text \<open>
  Claim C7. When the planner returns the absent path for a consecutive waypoint pair,
  the run is the run over the remaining pairs: the pair adds no point, the loop goes on
  with the next pair, and nothing is raised on account of it.
\<close>

theorem absent_segment_skipped:
  assumes "build_path c = Inr waypoints_rc" and "2 \<le> length waypoints_rc"
    and "zip waypoints_rc (tl waypoints_rc) = pre @ (start_rc, goal_rc) # post"
    and "planner c start_rc goal_rc = Some (Inr None)"
  shows "run_simulation c =
     (case segments c (pre @ post) (get_start_location c, []) of
        None \<Rightarrow> None
      | Some (Inl e) \<Rightarrow> Some (Inl e)
      | Some (Inr sp) \<Rightarrow> Some (Inr \<lparr>drone_id = sc_drone_id c, data = snd sp\<rparr>))"
  using assms segments_skip[OF assms(4), of pre post "(get_start_location c, [])"]
  by (simp add: run_simulation_def)

theorem absent_segment_skipped_witness:
  "build_path skipping_controller = Inr [(0, 0), (0, 3), (0, 0)] \<and>
   planner skipping_controller (0, 0) (0, 3) = Some (Inr None) \<and>
   run_simulation skipping_controller =
     Some (Inr \<lparr>drone_id = ''drone_1'',
                data = [\<lparr>ts = 0, p_lat = 0, p_lon = 1, p_alt = 0, agl = None, p_heading = - 90\<rparr>]\<rparr>)"
proof -
  have b: "build_path skipping_controller = Inr [(0, 0), (0, 3), (0, 0)]"
    by (simp add: skipping_controller_def flat_eval)
  have l: "2 \<le> length [(0::int, 0::int), (0, 3), (0, 0)]" by simp
  have z: "zip [(0::int, 0::int), (0, 3), (0, 0)] (tl [(0, 0), (0, 3), (0, 0)])
      = [] @ ((0, 0), (0, 3)) # [((0, 3), (0, 0))]" by simp
  have p: "planner skipping_controller (0, 0) (0, 3) = Some (Inr None)"
    by (simp add: skipping_controller_def flat_eval)
  have s: "segments skipping_controller ([] @ [((0, 3), (0, 0))]) (get_start_location skipping_controller, [])
     = Some (Inr (\<lparr>lat = 0, lon = 1, alt = 0, heading = - 90\<rparr>,
          [\<lparr>ts = 0, p_lat = 0, p_lon = 1, p_alt = 0, agl = None, p_heading = - 90\<rparr>]))"
    by (simp add: skipping_controller_def flat_eval)
  from absent_segment_skipped[OF b l z p] b p s show ?thesis
    by (simp add: skipping_controller_def flat_controller_def)
qed

lemma has_arrived_clock: "has_arrived (c\<lparr>utcnow := k\<rparr>) = has_arrived c"
  by (simp add: has_arrived_def fun_eq_iff)

lemma step_towards_clock: "step_towards (c\<lparr>utcnow := k\<rparr>) = step_towards c"
  by (simp add: step_towards_def dem_func_def fun_eq_iff)

lemma untimed_gps: "untimed (gps_point t s) = untimed (gps_point t' s)"
  by (simp add: untimed_def gps_point_def)

lemma approach_clock_step:
  assumes "approach c1 t sp = Some r"
  shows "\<forall>c kb pts2. c1 = c\<lparr>utcnow := utcnow c1\<rparr> \<and> map untimed pts2 = map untimed (snd sp) \<longrightarrow>
           (\<exists>r2. approach (c\<lparr>utcnow := kb\<rparr>) t (fst sp, pts2) = Some r2 \<and> fst r2 = fst r
                 \<and> map untimed (snd r2) = map untimed (snd r))"
  using assms
proof (induction rule: approach.raw_induct[rotated 1, consumes 1, case_names step])
  case (step approach' c1 t sp r)
  show ?case
  proof (intro allI impI)
    fix c kb pts2
    assume h: "c1 = c\<lparr>utcnow := utcnow c1\<rparr> \<and> map untimed pts2 = map untimed (snd sp)"
    have ha: "has_arrived (c\<lparr>utcnow := kb\<rparr>) = has_arrived c1"
      using h has_arrived_clock by metis
    have st: "step_towards (c\<lparr>utcnow := kb\<rparr>) = step_towards c1"
      using h step_towards_clock by metis
    show "\<exists>r2. approach (c\<lparr>utcnow := kb\<rparr>) t (fst sp, pts2) = Some r2 \<and> fst r2 = fst r
                 \<and> map untimed (snd r2) = map untimed (snd r)"
    proof (cases "has_arrived c1 (fst sp) t")
      case True
      with step(2) have "r = sp" by simp
      with True ha h show ?thesis by (subst approach.simps) simp
    next
      case False
      with step(2) have rec: "approach' c1 t (step_towards c1 (fst sp) t,
              snd sp @ [gps_point (utcnow c1 (length (snd sp))) (step_towards c1 (fst sp) t)]) = Some r"
        by simp
      have "map untimed (pts2 @ [gps_point (kb (length pts2)) (step_towards c1 (fst sp) t)])
          = map untimed (snd sp @ [gps_point (utcnow c1 (length (snd sp))) (step_towards c1 (fst sp) t)])"
        using h untimed_gps by simp
      with step(1)[OF rec] h obtain r2 where
        "approach (c\<lparr>utcnow := kb\<rparr>) t (step_towards c1 (fst sp) t,
            pts2 @ [gps_point (kb (length pts2)) (step_towards c1 (fst sp) t)]) = Some r2
         \<and> fst r2 = fst r \<and> map untimed (snd r2) = map untimed (snd r)"
        by fastforce
      with False ha st show ?thesis by (subst approach.simps) simp
    qed
  qed
qed

lemma approach_Some_clock:
  assumes "approach (c\<lparr>utcnow := ka\<rparr>) t sp1 = Some r1" and "same_track sp1 sp2"
  shows "\<exists>r2. approach (c\<lparr>utcnow := kb\<rparr>) t sp2 = Some r2 \<and> same_track r1 r2"
proof -
  have "c\<lparr>utcnow := ka\<rparr> = c\<lparr>utcnow := utcnow (c\<lparr>utcnow := ka\<rparr>)\<rparr>" by simp
  moreover have "map untimed (snd sp2) = map untimed (snd sp1)"
    using assms(2) by (simp add: same_track_def)
  ultimately obtain r2 where "approach (c\<lparr>utcnow := kb\<rparr>) t (fst sp1, snd sp2) = Some r2
      \<and> fst r2 = fst r1 \<and> map untimed (snd r2) = map untimed (snd r1)"
    using approach_clock_step[OF assms(1)] by blast
  moreover have "(fst sp1, snd sp2) = sp2" using assms(2) by (simp add: same_track_def)
  ultimately show ?thesis by (auto simp: same_track_def)
qed

lemma same_track_sym: "same_track a b \<Longrightarrow> same_track b a"
  by (simp add: same_track_def)

lemma approach_clock:
  assumes "same_track sp1 sp2"
  shows "rel_option same_track (approach (c\<lparr>utcnow := ka\<rparr>) t sp1) (approach (c\<lparr>utcnow := kb\<rparr>) t sp2)"
proof (cases "approach (c\<lparr>utcnow := ka\<rparr>) t sp1")
  case (Some r1)
  with approach_Some_clock[OF Some assms, where kb = kb] show ?thesis by auto
next
  case None
  show ?thesis
  proof (cases "approach (c\<lparr>utcnow := kb\<rparr>) t sp2")
    case (Some r2)
    from approach_Some_clock[OF Some same_track_sym[OF assms], where kb = ka] None show ?thesis by auto
  next
    case None2: None
    with None show ?thesis by simp
  qed
qed

lemma follow_clock:
  "same_track sp1 sp2 \<Longrightarrow>
   rel_option same_track (follow (c\<lparr>utcnow := ka\<rparr>) tgs sp1) (follow (c\<lparr>utcnow := kb\<rparr>) tgs sp2)"
proof (induction tgs arbitrary: sp1 sp2)
  case Nil
  then show ?case by simp
next
  case (Cons t tgs)
  from approach_clock[OF Cons.prems, where c = c and ka = ka and t = t and kb = kb] show ?case
    by (cases "approach (c\<lparr>utcnow := ka\<rparr>) t sp1"; cases "approach (c\<lparr>utcnow := kb\<rparr>) t sp2")
       (auto intro: Cons.IH)
qed

lemma grid_to_latlon_clock: "grid_to_latlon (c\<lparr>utcnow := k\<rparr>) = grid_to_latlon c"
  by (simp add: grid_to_latlon_def fun_eq_iff)

lemma segments_clock:
  "same_track sp1 sp2 \<Longrightarrow>
   rel_option (rel_sum (=) same_track)
     (segments (c\<lparr>utcnow := ka\<rparr>) ps sp1) (segments (c\<lparr>utcnow := kb\<rparr>) ps sp2)"
proof (induction ps arbitrary: sp1 sp2)
  case Nil
  then show ?case by simp
next
  case (Cons p ps)
  obtain s g where p: "p = (s, g)" by (cases p)
  show ?case
  proof (cases "planner c s g")
    case None
    then show ?thesis by (simp add: p)
  next
    case (Some res)
    show ?thesis
    proof (cases res)
      case (Inl e)
      with Some show ?thesis by (simp add: p)
    next
      case (Inr seg)
      show ?thesis
      proof (cases "seg = None \<or> seg = Some []")
        case True
        with Some Inr Cons.IH[OF Cons.prems] show ?thesis by (auto simp: p)
      next
        case False
        then obtain path where seg: "seg = Some path" "path \<noteq> []" by auto
        from follow_clock[OF Cons.prems, where c = c and ka = ka and tgs = "map (grid_to_latlon c) path" and kb = kb]
        show ?thesis using Some Inr seg
          by (cases "follow (c\<lparr>utcnow := ka\<rparr>) (map (grid_to_latlon c) path) sp1";
              cases "follow (c\<lparr>utcnow := kb\<rparr>) (map (grid_to_latlon c) path) sp2")
             (auto simp: p grid_to_latlon_clock intro: Cons.IH)
      qed
    qed
  qed
qed

lemma waypoint_cells_clock: "waypoint_cells (c\<lparr>utcnow := k\<rparr>) wps = waypoint_cells c wps"
  by (induction wps) (simp_all split: sum.splits)

lemma build_path_clock: "build_path (c\<lparr>utcnow := k\<rparr>) = build_path c"
  by (simp add: build_path_def waypoint_cells_clock)

lemma get_start_location_clock: "get_start_location (c\<lparr>utcnow := k\<rparr>) = get_start_location c"
  by (simp add: get_start_location_def dem_func_def)

text \<open>
  Two runs that differ in nothing but the clock produce the same sequence of points up
  to the timestamps, and end alike (both return, both raise the same error, or neither
  returns).
\<close>

lemma positions_independent_of_clock:
  "untimed_run (run_simulation (c\<lparr>utcnow := ka\<rparr>)) = untimed_run (run_simulation (c\<lparr>utcnow := kb\<rparr>))"
proof (cases "build_path c")
  case (Inl e)
  then show ?thesis by (simp add: run_simulation_def build_path_clock)
next
  case (Inr wrc)
  have st: "same_track (get_start_location c, []) (get_start_location c, [])"
    by (simp add: same_track_def)
  from segments_clock[OF st, where c = c and ka = ka and ps = "zip wrc (tl wrc)" and kb = kb]
  show ?thesis using Inr
    by (cases "segments (c\<lparr>utcnow := ka\<rparr>) (zip wrc (tl wrc)) (get_start_location c, [])";
        cases "segments (c\<lparr>utcnow := kb\<rparr>) (zip wrc (tl wrc)) (get_start_location c, [])")
       (auto simp: run_simulation_def build_path_clock get_start_location_clock untimed_run_def
          same_track_def elim!: rel_sum.cases)
qed

text \<open>
  The sibling \<open>interpolate_segment\<close> stamps its samples with multiples of the sample
  interval, reads no clock, and takes its noise from the generator state it is given:
  its result is a function of its inputs and that state.
\<close>

lemma interpolate_segment_timestamps:
  assumes "interpolate_segment c rng p1 p2 = Inr (samples, rng')"
  shows "map timestamp_ms samples = map (\<lambda>i. real i * interval_ms c) [0..<length samples]"
  using assms
  by (auto simp: interpolate_segment_def Let_def normal_def split: if_splits sum.splits prod.splits)

lemma dem_func_clock: "dem_func (c\<lparr>utcnow := k\<rparr>) = dem_func c"
  by (simp add: fun_eq_iff dem_func_def)

lemma compute_heading_clock: "compute_heading (c\<lparr>utcnow := k\<rparr>) = compute_heading c"
  by (simp add: fun_eq_iff compute_heading_def)

lemma interpolate_segment_clock:
  "interpolate_segment (c\<lparr>utcnow := k\<rparr>) rng p1 p2 = interpolate_segment c rng p1 p2"
  unfolding interpolate_segment_def dem_func_clock compute_heading_clock
  by (simp add: Let_def cong: if_cong sum.case_cong prod.case_cong)

text \<open>
  Claim C8. The claim says that two invocations of the synthesis on identical inputs,
  with every random source in the same state, produce identical trajectory points,
  timestamps included. \<open>run_simulation\<close> draws no random number, but stamps every point
  with \<open>datetime.utcnow()\<close>: two controllers that differ in nothing but the clock,
  the second run a minute after the first, emit the same positions, altitudes and
  headings with different timestamps.
\<close>

theorem timestamps_follow_clock:
  "late_controller = west_controller\<lparr>utcnow := utcnow late_controller\<rparr> \<and>
   map ts (emitted (run_simulation west_controller)) = [0] \<and>
   map ts (emitted (run_simulation late_controller)) = [60] \<and>
   map untimed (emitted (run_simulation west_controller))
     = map untimed (emitted (run_simulation late_controller))"
  by (simp add: west_controller_def late_controller_def flat_eval emitted_def untimed_def)

section \<open>Grid search: the returned path\<close>

lemma get_neighbors_legal:
  "(n, w) \<in> set (get_neighbors pl pos) \<longleftrightarrow>
   legal_move pl pos n \<and> w = norm2 (fst n - fst pos) (snd n - snd pos)"
proof -
  obtain a b where n: "n = (a, b)" by (cases n)
  obtain x y where p: "pos = (x, y)" by (cases pos)
  have "(a - x, b - y) \<in> set directions \<Longrightarrow>
        \<exists>dx dy. (dx, dy) \<in> set directions \<and> a = x + dx \<and> b = y + dy
           \<and> norm2 (a - x) (b - y) = norm2 dx dy"
    by (intro exI[of _ "a - x"] exI[of _ "b - y"]) simp
  then show ?thesis
    unfolding get_neighbors_iff legal_move_def n p by auto
qed

lemma tree_inv_init: "tree_inv pl start (init_state start)"
  by (simp add: tree_inv_def init_state_def)

lemma tree_inv_update:
  assumes inv: "tree_inv pl start st"
    and n: "n \<notin> visited st" and cur: "current \<in> visited st" and s: "start \<in> visited st"
    and mv: "legal_move pl current n"
    and gc: "g_score st current = Some gc"
    and ec: "elev_cost pl current n = Inr ec"
    and w: "w = norm2 (fst n - fst current) (snd n - snd current)"
    and root: "current = start \<or> current \<in> dom (came_from st)"
  shows "tree_inv pl start
           (st\<lparr>came_from := (came_from st)(n \<mapsto> current),
               g_score := (g_score st)(n \<mapsto> gc + (w + ec)),
               open_set := heappush (open_set st) (f, n)\<rparr>)"
proof -
  have ns: "n \<noteq> start" using n s by auto
  have nc: "n \<noteq> current" using n cur by auto
  have e: "edge_cost pl current n = Some (w + ec)" using ec w by (simp add: edge_cost_def)
  have old: "\<And>m p. came_from st m = Some p \<Longrightarrow>
         p \<in> visited st \<and> legal_move pl p m \<and> (p = start \<or> p \<in> dom (came_from st)) \<and>
         (\<exists>gp e. g_score st p = Some gp \<and> edge_cost pl p m = Some e \<and> g_score st m = Some (gp + e))"
    using inv unfolding tree_inv_def by blast
  have op: "list_all (\<lambda>e. snd e = start \<or> snd e \<in> dom (came_from st)) (open_set st)"
    using inv unfolding tree_inv_def by blast
  have t2: "\<forall>m p. ((came_from st)(n \<mapsto> current)) m = Some p \<longrightarrow>
         p \<in> visited st \<and> legal_move pl p m \<and> (p = start \<or> p \<in> dom ((came_from st)(n \<mapsto> current))) \<and>
         (\<exists>gp e. ((g_score st)(n \<mapsto> gc + (w + ec))) p = Some gp \<and> edge_cost pl p m = Some e
            \<and> ((g_score st)(n \<mapsto> gc + (w + ec))) m = Some (gp + e))"
  proof (intro allI impI)
    fix m p assume h: "((came_from st)(n \<mapsto> current)) m = Some p"
    show "p \<in> visited st \<and> legal_move pl p m \<and> (p = start \<or> p \<in> dom ((came_from st)(n \<mapsto> current))) \<and>
         (\<exists>gp e. ((g_score st)(n \<mapsto> gc + (w + ec))) p = Some gp \<and> edge_cost pl p m = Some e
            \<and> ((g_score st)(n \<mapsto> gc + (w + ec))) m = Some (gp + e))"
    proof (cases "m = n")
      case True
      with h have "p = current" by simp
      with True cur mv root gc e nc show ?thesis by auto
    next
      case False
      with h have cf: "came_from st m = Some p" by simp
      from old[OF cf] have pv: "p \<in> visited st" by blast
      with n have "p \<noteq> n" by auto
      with old[OF cf] False show ?thesis by auto
    qed
  qed
  have t3: "list_all (\<lambda>e. snd e = start \<or> snd e \<in> dom ((came_from st)(n \<mapsto> current)))
              (heappush (open_set st) (f, n))"
    using op by (auto simp: heappush_def list_all_iff)
  from inv s ns t2 t3 show ?thesis
    unfolding tree_inv_def by simp
qed

lemma relax_tree_inv:
  assumes "\<forall>(n, w) \<in> set nbs. legal_move pl current n \<and> w = norm2 (fst n - fst current) (snd n - snd current)"
    and "current \<in> visited st" and "start \<in> visited st"
    and "current = start \<or> current \<in> dom (came_from st)"
    and "tree_inv pl start st"
    and "relax pl goal current nbs st = Inr st'"
  shows "tree_inv pl start st' \<and> visited st' = visited st"
  using assms
proof (induction nbs arbitrary: st)
  case Nil
  then show ?case by simp
next
  case (Cons nb nbs)
  obtain n w where nb: "nb = (n, w)" by (cases nb)
  have rest: "\<forall>(n, w) \<in> set nbs. legal_move pl current n \<and> w = norm2 (fst n - fst current) (snd n - snd current)"
    using Cons.prems(1) by simp
  have mv: "legal_move pl current n" and w: "w = norm2 (fst n - fst current) (snd n - snd current)"
    using Cons.prems(1) nb by auto
  show ?case
  proof (cases "n \<in> visited st")
    case True
    with Cons.prems(6) have "relax pl goal current nbs st = Inr st'" by (simp add: nb)
    from Cons.IH[OF rest Cons.prems(2-5) this] show ?thesis .
  next
    case nv: False
    show ?thesis
    proof (cases "elev_cost pl current n")
      case (Inl e)
      with nv Cons.prems(6) show ?thesis by (simp add: nb)
    next
      case (Inr ec)
      show ?thesis
      proof (cases "g_score st current")
        case None
        with nv Inr Cons.prems(6) have "relax pl goal current nbs st = Inr st'" by (simp add: nb)
        from Cons.IH[OF rest Cons.prems(2-5) this] show ?thesis .
      next
        case (Some gc)
        show ?thesis
        proof (cases "improves (gc + (w + ec)) (g_score st n)")
          case False
          with nv Inr Some Cons.prems(6) have "relax pl goal current nbs st = Inr st'"
            by (simp add: nb Let_def)
          from Cons.IH[OF rest Cons.prems(2-5) this] show ?thesis .
        next
          case True
          define f where "f = gc + (w + ec) + norm2 (fst goal - fst n) (snd goal - snd n)"
          define st1 where "st1 = st\<lparr>came_from := (came_from st)(n \<mapsto> current),
               g_score := (g_score st)(n \<mapsto> gc + (w + ec)),
               open_set := heappush (open_set st) (f, n)\<rparr>"
          from True nv Inr Some Cons.prems(6) have r: "relax pl goal current nbs st1 = Inr st'"
            by (simp add: nb Let_def st1_def f_def)
          have i1: "tree_inv pl start st1"
            unfolding st1_def
            by (rule tree_inv_update[OF Cons.prems(5) nv Cons.prems(2,3) mv Some Inr w Cons.prems(4)])
          have v1: "visited st1 = visited st" by (simp add: st1_def)
          have c1: "current = start \<or> current \<in> dom (came_from st1)"
            using Cons.prems(4) by (auto simp: st1_def)
          from Cons.IH[OF rest _ _ c1 i1 r] Cons.prems(2,3) v1 show ?thesis by simp
        qed
      qed
    qed
  qed
qed

lemma heap_min_in: "heap_min m es \<in> set (m # es)"
  by (induction es arbitrary: m) auto

lemma heap_min_le: "e \<in> set (m # es) \<Longrightarrow> fst (heap_min m es) \<le> fst e"
proof (induction es arbitrary: m e)
  case Nil
  then show ?case by simp
next
  case (Cons x es)
  define m' where "m' = (if entry_le m x then m else x)"
  have le: "fst m' \<le> fst m \<and> fst m' \<le> fst x"
    by (auto simp: m'_def entry_le_def)
  have top: "fst (heap_min m' es) \<le> fst m'" by (rule Cons.IH) simp
  have "e = m \<or> e = x \<or> e \<in> set (m' # es)" using Cons.prems by auto
  then show ?case
    using le top Cons.IH[of e m'] by (auto simp: m'_def[symmetric])
qed

lemma heappop_in: "h \<noteq> [] \<Longrightarrow> fst (heappop h) \<in> set h"
  using heap_min_in[of "hd h" "tl h"] by (cases h) (simp_all add: heappop_def Let_def)

lemma heappop_le: "e \<in> set h \<Longrightarrow> fst (fst (heappop h)) \<le> fst e"
  using heap_min_le[of e "hd h" "tl h"] by (cases h) (simp_all add: heappop_def Let_def)

lemma heappop_rest_subset: "set (snd (heappop h)) \<subseteq> set h"
  using set_remove1_subset[of "heap_min (hd h) (tl h)" h] by (simp add: heappop_def Let_def)

lemma heappop_rest_keeps: "e \<in> set h \<Longrightarrow> e \<noteq> fst (heappop h) \<Longrightarrow> e \<in> set (snd (heappop h))"
  by (simp add: heappop_def Let_def)

lemma walk_back_route:
  assumes "walk_back cf current acc = Some path"
    and "\<forall>n p. cf n = Some p \<longrightarrow> legal_move pl p n \<and> (p = start \<or> p \<in> dom cf) \<and>
           (\<exists>gp e. g p = Some gp \<and> edge_cost pl p n = Some e \<and> g n = Some (gp + e))"
    and "cf start = None" and "g start = Some 0"
    and "current = start \<or> current \<in> dom cf"
    and "legal_path pl (current # rev acc)" and "last (current # rev acc) = goal"
    and "\<exists>gc c. g current = Some gc \<and> path_cost pl (current # rev acc) = Some c \<and> g goal = Some (gc + c)"
  shows "hd (rev (path @ [start])) = start \<and> last (rev (path @ [start])) = goal \<and>
         legal_path pl (rev (path @ [start])) \<and> path_cost pl (rev (path @ [start])) = g goal"
  using assms
proof (induction rule: walk_back.raw_induct[rotated 1, consumes 1, case_names step])
  case (step walk_back' cf current acc path)
  show ?case
  proof (cases "cf current")
    case None
    with step(2) have p: "path = acc" by simp
    from None step(6) have c: "current = start" by auto
    from step(9) obtain gc c where "g current = Some gc" "path_cost pl (current # rev acc) = Some c"
      "g goal = Some (gc + c)" by blast
    with step(5) c have "path_cost pl (start # rev acc) = g goal" by simp
    with step(7,8) c p show ?thesis by simp
  next
    case (Some parent)
    with step(2) have rec: "walk_back' cf parent (acc @ [current]) = Some path" by simp
    from step(3) Some have mv: "legal_move pl parent current"
      and root: "parent = start \<or> parent \<in> dom cf" by blast+
    from step(3) Some obtain gp e where gp: "g parent = Some gp" "edge_cost pl parent current = Some e"
      "g current = Some (gp + e)" by blast
    from step(9) obtain gc c where gc: "g current = Some gc" "path_cost pl (current # rev acc) = Some c"
      "g goal = Some (gc + c)" by blast
    have a: "legal_path pl (parent # rev (acc @ [current]))" using mv step(7) by simp
    have b: "last (parent # rev (acc @ [current])) = goal" using step(8) by simp
    have c: "\<exists>gc c. g parent = Some gc \<and> path_cost pl (parent # rev (acc @ [current])) = Some c
        \<and> g goal = Some (gc + c)"
      using gp gc by (auto simp: algebra_simps)
    show ?thesis by (rule step(1)[OF rec step(3,4,5) root a b c])
  qed
qed

lemma astar_loop_rule:
  assumes "astar_loop pl start goal st = Some res"
    and "I st"
    and step: "\<And>st st2. I st \<Longrightarrow> open_set st \<noteq> [] \<Longrightarrow> snd (fst (heappop (open_set st))) \<noteq> goal \<Longrightarrow>
        relax pl goal (snd (fst (heappop (open_set st)))) (get_neighbors pl (snd (fst (heappop (open_set st)))))
          (st\<lparr>open_set := snd (heappop (open_set st)),
              visited := insert (snd (fst (heappop (open_set st)))) (visited st)\<rparr>) = Inr st2 \<Longrightarrow> I st2"
    and final: "\<And>st path. I st \<Longrightarrow> open_set st \<noteq> [] \<Longrightarrow> snd (fst (heappop (open_set st))) = goal \<Longrightarrow>
        walk_back (came_from st) goal [] = Some path \<Longrightarrow> Q (rev (path @ [start]))"
    and "res = Inr (Some p)"
  shows "Q p"
  using assms
proof (induction rule: astar_loop.raw_induct[rotated 1, consumes 1, case_names loop])
  case (loop astar_loop' pl start goal st res)
  note body = loop(2)
  have ne: "open_set st \<noteq> []" using body loop(6) by (auto split: if_splits)
  define current where "current = snd (fst (heappop (open_set st)))"
  show ?case
  proof (cases "current = goal")
    case True
    with body ne loop(6) obtain path where
      w: "walk_back (came_from st) goal [] = Some path" and p: "p = rev (path @ [start])"
      by (auto simp: Let_def current_def split: option.splits)
    from loop(5)[OF loop(3) ne True[unfolded current_def] w] p show ?thesis by simp
  next
    case False
    define st1 where "st1 = st\<lparr>open_set := snd (heappop (open_set st)),
              visited := insert current (visited st)\<rparr>"
    from body ne False loop(6) obtain st2 where
      r: "relax pl goal current (get_neighbors pl current) st1 = Inr st2"
      and rec: "astar_loop' pl start goal st2 = Some res"
      by (auto simp: Let_def current_def st1_def split: sum.splits)
    have i2: "I st2"
      using loop(4)[OF loop(3) ne False[unfolded current_def]] r
      unfolding current_def st1_def by blast
    show ?thesis by (rule loop(1)[OF rec i2 loop(4) loop(5) loop(6)])
  qed
qed

lemma tree_inv_pop:
  assumes inv: "tree_inv pl start st" and ne: "open_set st \<noteq> []"
  defines "current \<equiv> snd (fst (heappop (open_set st)))"
  defines "st1 \<equiv> st\<lparr>open_set := snd (heappop (open_set st)), visited := insert current (visited st)\<rparr>"
  shows "tree_inv pl start st1" and "current \<in> visited st1" and "start \<in> visited st1"
    and "current = start \<or> current \<in> dom (came_from st1)"
proof -
  have mem: "fst (heappop (open_set st)) \<in> set (open_set st)" by (rule heappop_in[OF ne])
  have sub: "set (snd (heappop (open_set st))) \<subseteq> set (open_set st)" by (rule heappop_rest_subset)
  have root: "current = start \<or> current \<in> dom (came_from st)"
    using inv mem unfolding tree_inv_def current_def list_all_iff by blast
  have "start \<in> visited st \<or> snd (fst (heappop (open_set st))) = start"
    using inv mem unfolding tree_inv_def list_all_iff by blast
  then have s: "start \<in> insert current (visited st)"
    by (auto simp: current_def)
  show "current \<in> visited st1" by (simp add: st1_def)
  show "start \<in> visited st1" using s by (simp add: st1_def)
  show "current = start \<or> current \<in> dom (came_from st1)" using root by (simp add: st1_def)
  have "list_all (\<lambda>e. snd e = start \<or> snd e \<in> dom (came_from st)) (snd (heappop (open_set st)))"
    using inv sub unfolding tree_inv_def list_all_iff by blast
  with inv s show "tree_inv pl start st1"
    unfolding tree_inv_def st1_def by auto
qed

lemma tree_inv_step:
  assumes "tree_inv pl start st" and "open_set st \<noteq> []"
    and "relax pl goal (snd (fst (heappop (open_set st)))) (get_neighbors pl (snd (fst (heappop (open_set st)))))
          (st\<lparr>open_set := snd (heappop (open_set st)),
              visited := insert (snd (fst (heappop (open_set st)))) (visited st)\<rparr>) = Inr st2"
  shows "tree_inv pl start st2"
proof -
  have nbs: "\<forall>(n, w) \<in> set (get_neighbors pl (snd (fst (heappop (open_set st))))).
      legal_move pl (snd (fst (heappop (open_set st)))) n \<and>
      w = norm2 (fst n - fst (snd (fst (heappop (open_set st))))) (snd n - snd (snd (fst (heappop (open_set st)))))"
    using get_neighbors_legal by blast
  from relax_tree_inv[OF nbs tree_inv_pop(2,3,4,1)[OF assms(1,2)] assms(3)] show ?thesis by simp
qed

lemma tree_inv_final:
  assumes inv: "tree_inv pl start st" and ne: "open_set st \<noteq> []"
    and goal: "snd (fst (heappop (open_set st))) = goal"
    and w: "walk_back (came_from st) goal [] = Some path"
  shows "hd (rev (path @ [start])) = start \<and> last (rev (path @ [start])) = goal \<and>
         legal_path pl (rev (path @ [start])) \<and>
         path_cost pl (rev (path @ [start])) = g_score st goal \<and> g_score st goal \<noteq> None"
proof -
  have mem: "fst (heappop (open_set st)) \<in> set (open_set st)" by (rule heappop_in[OF ne])
  have root: "goal = start \<or> goal \<in> dom (came_from st)"
    using inv mem goal unfolding tree_inv_def list_all_iff by blast
  have t2: "\<forall>n p. came_from st n = Some p \<longrightarrow> legal_move pl p n \<and> (p = start \<or> p \<in> dom (came_from st)) \<and>
           (\<exists>gp e. g_score st p = Some gp \<and> edge_cost pl p n = Some e \<and> g_score st n = Some (gp + e))"
    using inv unfolding tree_inv_def by blast
  have s0: "came_from st start = None" "g_score st start = Some 0"
    using inv unfolding tree_inv_def by blast+
  have gg: "g_score st goal \<noteq> None"
  proof (cases "goal = start")
    case True
    with s0 show ?thesis by simp
  next
    case False
    with root obtain p where "came_from st goal = Some p" by auto
    with t2 obtain gp e where "g_score st goal = Some (gp + e)" by blast
    then show ?thesis by simp
  qed
  then have c: "\<exists>gc c. g_score st goal = Some gc \<and> path_cost pl (goal # rev []) = Some c
      \<and> g_score st goal = Some (gc + c)" by auto
  from walk_back_route[OF w t2 s0 root _ _ c] gg show ?thesis by simp
qed

lemma legal_move_neq: "legal_move pl a b \<Longrightarrow> a \<noteq> b"
  by (auto simp: legal_move_def directions_def)

lemma legal_path_distinct_adj: "legal_path pl p \<Longrightarrow> distinct_adj p"
  by (induction pl p rule: legal_path.induct) (auto dest: legal_move_neq)

lemma find_path_route:
  assumes "find_path pl start goal = Some (Inr (Some path))"
  shows "path \<noteq> [] \<and> hd path = start \<and> last path = goal \<and> legal_path pl path"
proof (cases "start = goal")
  case True
  with assms show ?thesis by (auto simp: find_path_def)
next
  case False
  with assms have l: "astar_loop pl start goal (init_state start) = Some (Inr (Some path))"
    by (simp add: find_path_def)
  show ?thesis
  proof (rule astar_loop_rule[OF l, where I = "tree_inv pl start"
        and Q = "\<lambda>p. p \<noteq> [] \<and> hd p = start \<and> last p = goal \<and> legal_path pl p"])
    show "tree_inv pl start (init_state start)" by (rule tree_inv_init)
  next
    fix st st2
    assume "tree_inv pl start st" "open_set st \<noteq> []"
      "relax pl goal (snd (fst (heappop (open_set st)))) (get_neighbors pl (snd (fst (heappop (open_set st)))))
          (st\<lparr>open_set := snd (heappop (open_set st)),
              visited := insert (snd (fst (heappop (open_set st)))) (visited st)\<rparr>) = Inr st2"
    then show "tree_inv pl start st2" by (rule tree_inv_step)
  next
    fix st p
    assume "tree_inv pl start st" "open_set st \<noteq> []" "snd (fst (heappop (open_set st))) = goal"
      "walk_back (came_from st) goal [] = Some p"
    from tree_inv_final[OF this]
    show "rev (p @ [start]) \<noteq> [] \<and> hd (rev (p @ [start])) = start \<and> last (rev (p @ [start])) = goal
        \<and> legal_path pl (rev (p @ [start]))" by simp
  qed simp
qed

lemma corridor_find_path: "find_path corridor (0, 0) (0, 1) = Some (Inr (Some [(0, 0), (0, 1)]))"
proof -
  have nb: "get_neighbors corridor (0, 0) = [((0, 1), 1)]"
    by (simp add: get_neighbors_def corridor_def directions_def in_bounds_def is_free_def norm2_def)
  have ec: "\<And>a b. elev_cost corridor a b = Inr 0"
    by (simp add: elev_cost_def corridor_def)
  show ?thesis
    by (simp add: find_path_def init_state_def astar_loop.simps heappop_def nb ec improves_def
        heappush_def norm2_def Let_def walk_back.simps)
qed

text \<open>
  Claim C5. Every path that \<open>find_path\<close> returns begins with \<open>start\<close>, ends with \<open>goal\<close>,
  has no two equal consecutive points, and each of its steps is a legal move: an
  8-connected offset into a cell that is in bounds and unoccupied.
\<close>

theorem astar_path_well_formed:
  assumes "find_path pl start goal = Some (Inr (Some path))"
  shows "path \<noteq> [] \<and> hd path = start \<and> last path = goal \<and> distinct_adj path \<and> legal_path pl path"
  using find_path_route[OF assms] legal_path_distinct_adj by blast

theorem astar_path_well_formed_witness:
  "find_path corridor (0, 0) (0, 1) = Some (Inr (Some [(0, 0), (0, 1)])) \<and>
   hd [(0, 0), (0, 1)] = ((0, 0) :: cell) \<and> last [(0, 0), (0, 1)] = ((0, 1) :: cell) \<and>
   distinct_adj [(0, 0), (0, 1) :: cell] \<and> legal_path corridor [(0, 0), (0, 1)]"
proof -
  have h: "find_path corridor (0, 0) (0, 1) = Some (Inr (Some [(0, 0), (0, 1)]))"
    by (rule corridor_find_path)
  from astar_path_well_formed[OF h] h show ?thesis by simp
qed

section \<open>Grid search: optimality\<close>

lemma norm2_sqrt: "norm2 dx dy = sqrt ((real_of_int dx)\<^sup>2 + (real_of_int dy)\<^sup>2)"
  by (simp add: norm2_def power2_eq_square)

lemma norm2_triangle: "norm2 (a + c) (b + d) \<le> norm2 a b + norm2 c d"
  using real_sqrt_sum_squares_triangle_ineq[of "real_of_int a" "real_of_int c" "real_of_int b" "real_of_int d"]
  by (simp add: norm2_sqrt)

lemma norm2_nonneg: "0 \<le> norm2 a b"
  by (simp add: norm2_sqrt)

lemma heuristic_step:
  "heuristic goal a \<le> norm2 (fst b - fst a) (snd b - snd a) + heuristic goal b"
  using norm2_triangle[of "fst b - fst a" "fst goal - fst b" "snd b - snd a" "snd goal - snd b"]
  by (simp add: heuristic_def)

lemma scalar_wrap_unsigned_nonneg: "0 \<le> scalar_wrap False w x"
  by (simp add: scalar_wrap_def)

lemma elev_cost_nonneg:
  assumes "elevation_term_nonneg pl" and "elev_cost pl a b = Inr ec"
  shows "0 \<le> ec"
  using assms scalar_wrap_unsigned_nonneg
  by (auto simp: elevation_term_nonneg_def elev_cost_def int_abs_diff_def
      split: option.splits raster.splits sum.splits)

lemma edge_cost_ge:
  assumes "elevation_term_nonneg pl" and "edge_cost pl a b = Some e"
  shows "norm2 (fst b - fst a) (snd b - snd a) \<le> e"
  using assms elev_cost_nonneg[of pl a b]
  by (auto simp: edge_cost_def split: sum.splits)

lemma path_cost_Cons:
  "path_cost pl (a # b # rest) = Some c \<longleftrightarrow>
   (\<exists>e c'. edge_cost pl a b = Some e \<and> path_cost pl (b # rest) = Some c' \<and> c = e + c')"
  by (auto split: option.splits)

lemma heuristic_path:
  assumes pen: "elevation_term_nonneg pl"
  shows "p \<noteq> [] \<Longrightarrow> path_cost pl p = Some c \<Longrightarrow> heuristic goal (hd p) \<le> c + heuristic goal (last p)"
proof (induction p arbitrary: c)
  case Nil
  then show ?case by simp
next
  case (Cons a p)
  show ?case
  proof (cases p)
    case Nil
    with Cons.prems show ?thesis by simp
  next
    case (Cons b rest)
    from Cons.prems(2) obtain e c' where e: "edge_cost pl a b = Some e" "path_cost pl (b # rest) = Some c'"
      "c = e + c'"
      unfolding Cons path_cost_Cons by blast
    have "heuristic goal b \<le> c' + heuristic goal (last (b # rest))"
      using Cons.IH[of c'] e(2) Cons by simp
    moreover have "heuristic goal a \<le> e + heuristic goal b"
      using heuristic_step[of goal a b] edge_cost_ge[OF pen e(1)] by simp
    ultimately show ?thesis using e(3) Cons by simp
  qed
qed

lemma path_cost_nonneg:
  assumes pen: "elevation_term_nonneg pl"
  shows "path_cost pl p = Some c \<Longrightarrow> 0 \<le> c"
proof (induction p arbitrary: c)
  case Nil
  then show ?case by simp
next
  case (Cons a p)
  show ?case
  proof (cases p)
    case Nil
    with Cons.prems show ?thesis by simp
  next
    case (Cons b rest)
    from Cons.prems obtain e c' where e: "edge_cost pl a b = Some e" "path_cost pl (b # rest) = Some c'"
      "c = e + c'"
      unfolding Cons path_cost_Cons by blast
    have "0 \<le> c'" using Cons.IH[of c'] e(2) Cons by simp
    moreover have "0 \<le> e"
      using edge_cost_ge[OF pen e(1)] norm2_nonneg[of "fst b - fst a" "snd b - snd a"] by simp
    ultimately show ?thesis using e(3) by simp
  qed
qed

lemma legal_path_snoc:
  "p \<noteq> [] \<Longrightarrow> legal_path pl (p @ [n]) \<longleftrightarrow> legal_path pl p \<and> legal_move pl (last p) n"
proof (induction p)
  case Nil
  then show ?case by simp
next
  case (Cons a p)
  then show ?case by (cases p) auto
qed

lemma path_cost_snoc:
  "p \<noteq> [] \<Longrightarrow> path_cost pl p = Some c \<Longrightarrow> edge_cost pl (last p) n = Some e \<Longrightarrow>
   path_cost pl (p @ [n]) = Some (c + e)"
proof (induction p arbitrary: c)
  case Nil
  then show ?case by simp
next
  case (Cons a p)
  show ?case
  proof (cases p)
    case Nil
    with Cons.prems show ?thesis by simp
  next
    case (Cons b rest)
    from Cons.prems(2) obtain e0 c' where e: "edge_cost pl a b = Some e0" "path_cost pl (b # rest) = Some c'"
      "c = e0 + c'"
      unfolding Cons path_cost_Cons by blast
    have "path_cost pl ((b # rest) @ [n]) = Some (c' + e)"
      using Cons.IH[of c'] e(2) Cons.prems(3) Cons by simp
    with e(1,3) show ?thesis unfolding Cons by simp
  qed
qed

lemma route_snoc:
  assumes "route pl a b p c" and "legal_move pl b n" and "edge_cost pl b n = Some e"
  shows "route pl a n (p @ [n]) (c + e)"
  using assms legal_path_snoc[of p pl n] path_cost_snoc[of p pl c n e]
  by (auto simp: route_def)

lemma route_refl: "route pl a a [a] 0"
  by (simp add: route_def)

lemma opt_invI:
  assumes "start \<in> visited st"
    and "\<And>v. v \<in> visited st \<Longrightarrow> \<exists>gv. g_score st v = Some gv"
    and "\<And>n gn. g_score st n = Some gn \<Longrightarrow> \<exists>p. route pl start n p gn"
    and "\<And>v p c. v \<in> visited st \<Longrightarrow> route pl start v p c \<Longrightarrow> \<exists>gv. g_score st v = Some gv \<and> gv \<le> c"
    and "\<And>v n e. v \<in> visited st \<Longrightarrow> n \<notin> visited st \<Longrightarrow> (v, n) \<notin> E \<Longrightarrow> legal_move pl v n \<Longrightarrow>
          edge_cost pl v n = Some e \<Longrightarrow>
          \<exists>gv gn. g_score st v = Some gv \<and> g_score st n = Some gn \<and> gn \<le> gv + e"
    and "\<And>n gn. n \<notin> visited st \<Longrightarrow> g_score st n = Some gn \<Longrightarrow>
          (gn + heuristic goal n, n) \<in> set (open_set st)"
    and "\<And>f n. (f, n) \<in> set (open_set st) \<Longrightarrow> \<exists>gn. g_score st n = Some gn \<and> gn + heuristic goal n \<le> f"
  shows "opt_inv pl start goal E st"
  unfolding opt_inv_def using assms by (intro conjI ballI allI impI) auto

lemma oi_start: "opt_inv pl start goal E st \<Longrightarrow> start \<in> visited st"
  by (simp add: opt_inv_def)

lemma oi_visited: "opt_inv pl start goal E st \<Longrightarrow> v \<in> visited st \<Longrightarrow> \<exists>gv. g_score st v = Some gv"
  by (auto simp: opt_inv_def)

lemma oi_reach: "opt_inv pl start goal E st \<Longrightarrow> g_score st n = Some gn \<Longrightarrow> \<exists>p. route pl start n p gn"
  unfolding opt_inv_def by blast

lemma oi_best:
  "opt_inv pl start goal E st \<Longrightarrow> v \<in> visited st \<Longrightarrow> route pl start v p c \<Longrightarrow>
   \<exists>gv. g_score st v = Some gv \<and> gv \<le> c"
  unfolding opt_inv_def by blast

lemma oi_edge:
  "opt_inv pl start goal E st \<Longrightarrow> v \<in> visited st \<Longrightarrow> n \<notin> visited st \<Longrightarrow> (v, n) \<notin> E \<Longrightarrow>
   legal_move pl v n \<Longrightarrow> edge_cost pl v n = Some e \<Longrightarrow>
   \<exists>gv gn. g_score st v = Some gv \<and> g_score st n = Some gn \<and> gn \<le> gv + e"
  unfolding opt_inv_def by blast

lemma oi_open:
  "opt_inv pl start goal E st \<Longrightarrow> n \<notin> visited st \<Longrightarrow> g_score st n = Some gn \<Longrightarrow>
   (gn + heuristic goal n, n) \<in> set (open_set st)"
  unfolding opt_inv_def by blast

lemma oi_entry:
  "opt_inv pl start goal E st \<Longrightarrow> (f, n) \<in> set (open_set st) \<Longrightarrow>
   \<exists>gn. g_score st n = Some gn \<and> gn + heuristic goal n \<le> f"
  unfolding opt_inv_def by blast

lemma frontier:
  assumes inv: "opt_inv pl start goal {} st" and pen: "elevation_term_nonneg pl"
  shows "legal_path pl (a # rest) \<Longrightarrow> path_cost pl (a # rest) = Some c \<Longrightarrow> a \<in> visited st \<Longrightarrow>
     last (a # rest) \<notin> visited st \<Longrightarrow> g_score st a = Some ga \<Longrightarrow>
     \<exists>n gn. n \<notin> visited st \<and> g_score st n = Some gn \<and>
        gn + heuristic goal n \<le> ga + c + heuristic goal (last (a # rest))"
proof (induction rest arbitrary: a c ga)
  case Nil
  then show ?case by simp
next
  case (Cons b rest)
  from Cons.prems(1) have mv: "legal_move pl a b" and lp: "legal_path pl (b # rest)" by simp_all
  from Cons.prems(2) obtain e c' where e: "edge_cost pl a b = Some e" "path_cost pl (b # rest) = Some c'"
      "c = e + c'"
    unfolding path_cost_Cons by blast
  have l: "last (a # b # rest) = last (b # rest)" by simp
  show ?case
  proof (cases "b \<in> visited st")
    case False
    from oi_edge[OF inv Cons.prems(3) False _ mv e(1)] Cons.prems(5)
    obtain gb where gb: "g_score st b = Some gb" "gb \<le> ga + e" by auto
    have "heuristic goal b \<le> c' + heuristic goal (last (b # rest))"
      using heuristic_path[OF pen _ e(2), of goal] by simp
    with gb e(3) False show ?thesis unfolding l by (intro exI[of _ b] exI[of _ gb]) simp
  next
    case True
    from oi_reach[OF inv Cons.prems(5)] obtain pa where "route pl start a pa ga" by blast
    from route_snoc[OF this mv e(1)] have "route pl start b (pa @ [b]) (ga + e)" .
    from oi_best[OF inv True this] obtain gb where gb: "g_score st b = Some gb" "gb \<le> ga + e" by blast
    from Cons.IH[OF lp e(2) True _ gb(1)] Cons.prems(4)
    obtain n gn where "n \<notin> visited st" "g_score st n = Some gn"
      "gn + heuristic goal n \<le> gb + c' + heuristic goal (last (b # rest))" by auto
    with gb(2) e(3) show ?thesis unfolding l by (intro exI[of _ n] exI[of _ gn]) simp
  qed
qed

lemma pop_best:
  assumes inv: "opt_inv pl start goal {} st" and pen: "elevation_term_nonneg pl"
    and ne: "open_set st \<noteq> []"
    and r: "route pl start (snd (fst (heappop (open_set st)))) p c"
  shows "\<exists>gu. g_score st (snd (fst (heappop (open_set st)))) = Some gu \<and> gu \<le> c"
proof -
  define f where "f = fst (fst (heappop (open_set st)))"
  define u where "u = snd (fst (heappop (open_set st)))"
  have mem: "(f, u) \<in> set (open_set st)"
    using heappop_in[OF ne] by (simp add: f_def u_def)
  from oi_entry[OF inv mem] obtain gu where gu: "g_score st u = Some gu" "gu + heuristic goal u \<le> f"
    by blast
  show ?thesis
  proof (cases "u \<in> visited st")
    case True
    from oi_best[OF inv True r[folded u_def]] show ?thesis by (simp add: u_def)
  next
    case False
    from r obtain rest where p: "p = start # rest"
      by (cases p) (auto simp: route_def)
    have s: "start \<in> visited st" by (rule oi_start[OF inv])
    from oi_best[OF inv s route_refl] obtain gs where gs: "g_score st start = Some gs" "gs \<le> 0" by blast
    from r have lp: "legal_path pl (start # rest)" and pc: "path_cost pl (start # rest) = Some c"
      and la: "last (start # rest) = u"
      by (simp_all add: route_def p u_def)
    from frontier[OF inv pen lp pc s _ gs(1)] False la
    obtain n gn where n: "n \<notin> visited st" "g_score st n = Some gn"
      "gn + heuristic goal n \<le> gs + c + heuristic goal u" by auto
    have "(gn + heuristic goal n, n) \<in> set (open_set st)" by (rule oi_open[OF inv n(1,2)])
    from heappop_le[OF this] have "f \<le> gn + heuristic goal n" by (simp add: f_def)
    with gu n(3) gs(2) have "gu \<le> c" by simp
    with gu(1) show ?thesis by (simp add: u_def)
  qed
qed

lemma opt_inv_pop:
  assumes inv: "opt_inv pl start goal {} st" and pen: "elevation_term_nonneg pl"
    and ne: "open_set st \<noteq> []"
  defines "u \<equiv> snd (fst (heappop (open_set st)))"
  shows "opt_inv pl start goal ({u} \<times> UNIV)
           (st\<lparr>open_set := snd (heappop (open_set st)), visited := insert u (visited st)\<rparr>)"
proof (rule opt_invI)
  let ?st1 = "st\<lparr>open_set := snd (heappop (open_set st)), visited := insert u (visited st)\<rparr>"
  have mem: "fst (heappop (open_set st)) \<in> set (open_set st)" by (rule heappop_in[OF ne])
  then have mem': "(fst (fst (heappop (open_set st))), u) \<in> set (open_set st)" by (simp add: u_def)
  from oi_entry[OF inv mem'] obtain gu where gu: "g_score st u = Some gu" by blast
  show "start \<in> visited ?st1" using oi_start[OF inv] by simp
  show "\<exists>gv. g_score ?st1 v = Some gv" if "v \<in> visited ?st1" for v
    using that gu oi_visited[OF inv, of v] by auto
  show "\<exists>p. route pl start n p gn" if "g_score ?st1 n = Some gn" for n gn
    using that oi_reach[OF inv, of n gn] by simp
  show "\<exists>gv. g_score ?st1 v = Some gv \<and> gv \<le> c" if "v \<in> visited ?st1" "route pl start v p c" for v p c
  proof (cases "v = u")
    case True
    with pop_best[OF inv pen ne, of p c] that(2) show ?thesis by (simp add: u_def)
  next
    case False
    with that oi_best[OF inv, of v p c] show ?thesis by simp
  qed
  show "\<exists>gv gn. g_score ?st1 v = Some gv \<and> g_score ?st1 n = Some gn \<and> gn \<le> gv + e"
    if "v \<in> visited ?st1" "n \<notin> visited ?st1" "(v, n) \<notin> {u} \<times> UNIV" "legal_move pl v n"
      "edge_cost pl v n = Some e" for v n e
    using that oi_edge[OF inv, of v n e] by simp
  show "(gn + heuristic goal n, n) \<in> set (open_set ?st1)"
    if "n \<notin> visited ?st1" "g_score ?st1 n = Some gn" for n gn
  proof -
    from that have "n \<noteq> u" "n \<notin> visited st" "g_score st n = Some gn" by simp_all
    from oi_open[OF inv this(2,3)] have "(gn + heuristic goal n, n) \<in> set (open_set st)" .
    moreover have "(gn + heuristic goal n, n) \<noteq> fst (heappop (open_set st))"
      using \<open>n \<noteq> u\<close> unfolding u_def by (metis snd_conv)
    ultimately show ?thesis using heappop_rest_keeps by simp
  qed
  show "\<exists>gn. g_score ?st1 n = Some gn \<and> gn + heuristic goal n \<le> f"
    if "(f, n) \<in> set (open_set ?st1)" for f n
    using that heappop_rest_subset[of "open_set st"] oi_entry[OF inv, of f n] by auto
qed

lemma opt_inv_first:
  assumes pen: "elevation_term_nonneg pl"
  shows "opt_inv pl start goal ({start} \<times> UNIV)
           ((init_state start)\<lparr>open_set := snd (heappop (open_set (init_state start))),
               visited := insert start (visited (init_state start))\<rparr>)"
proof (rule opt_invI)
  let ?st1 = "(init_state start)\<lparr>open_set := snd (heappop (open_set (init_state start))),
               visited := insert start (visited (init_state start))\<rparr>"
  have o: "open_set ?st1 = []" by (simp add: init_state_def heappop_def)
  have v: "visited ?st1 = {start}" by (simp add: init_state_def)
  have g: "g_score ?st1 = [start \<mapsto> 0]" by (simp add: init_state_def)
  show "start \<in> visited ?st1" by (simp add: v)
  show "\<exists>gv. g_score ?st1 x = Some gv" if "x \<in> visited ?st1" for x
    using that by (simp add: v g)
  show "\<exists>p. route pl start n p gn" if "g_score ?st1 n = Some gn" for n gn
    using that route_refl[of pl start] by (auto simp: g split: if_splits)
  show "\<exists>gv. g_score ?st1 x = Some gv \<and> gv \<le> c" if "x \<in> visited ?st1" "route pl start x p c" for x p c
    using that path_cost_nonneg[OF pen, of p c] by (simp add: v g route_def)
  show "\<exists>gv gn. g_score ?st1 x = Some gv \<and> g_score ?st1 n = Some gn \<and> gn \<le> gv + e"
    if "x \<in> visited ?st1" "n \<notin> visited ?st1" "(x, n) \<notin> {start} \<times> UNIV" for x n e
    using that by (simp add: v)
  show "(gn + heuristic goal n, n) \<in> set (open_set ?st1)"
    if "n \<notin> visited ?st1" "g_score ?st1 n = Some gn" for n gn
    using that by (simp add: v g split: if_splits)
  show "\<exists>gn. g_score ?st1 n = Some gn \<and> gn + heuristic goal n \<le> f"
    if "(f, n) \<in> set (open_set ?st1)" for f n
    using that by (simp add: o)
qed

lemma opt_inv_skip:
  assumes "opt_inv pl start goal E st" and "n \<in> visited st"
  shows "opt_inv pl start goal (E - {(current, n)}) st"
  using assms unfolding opt_inv_def by blast

lemma opt_inv_keep:
  assumes inv: "opt_inv pl start goal E st" and cur: "current \<in> visited st"
    and gc: "g_score st current = Some gc" and e: "edge_cost pl current n = Some e"
    and no: "\<not> improves (gc + e) (g_score st n)"
  shows "opt_inv pl start goal (E - {(current, n)}) st"
proof (rule opt_invI)
  show "start \<in> visited st" by (rule oi_start[OF inv])
  show "\<exists>gv. g_score st v = Some gv" if "v \<in> visited st" for v by (rule oi_visited[OF inv that])
  show "\<exists>p. route pl start m p gn" if "g_score st m = Some gn" for m gn by (rule oi_reach[OF inv that])
  show "\<exists>gv. g_score st v = Some gv \<and> gv \<le> c" if "v \<in> visited st" "route pl start v p c" for v p c
    by (rule oi_best[OF inv that])
  show "\<exists>gv gn. g_score st v = Some gv \<and> g_score st m = Some gn \<and> gn \<le> gv + e'"
    if "v \<in> visited st" "m \<notin> visited st" "(v, m) \<notin> E - {(current, n)}" "legal_move pl v m"
      "edge_cost pl v m = Some e'" for v m e'
  proof (cases "(v, m) = (current, n)")
    case True
    with that(5) e have "e' = e" by simp
    with no gc True show ?thesis by (auto simp: improves_def split: option.splits)
  next
    case False
    with that(3) have "(v, m) \<notin> E" by blast
    from oi_edge[OF inv that(1,2) this that(4,5)] show ?thesis .
  qed
  show "(gn + heuristic goal m, m) \<in> set (open_set st)" if "m \<notin> visited st" "g_score st m = Some gn" for m gn
    by (rule oi_open[OF inv that])
  show "\<exists>gn. g_score st m = Some gn \<and> gn + heuristic goal m \<le> f" if "(f, m) \<in> set (open_set st)" for f m
    by (rule oi_entry[OF inv that])
qed

lemma opt_inv_update:
  assumes inv: "opt_inv pl start goal E st" and cur: "current \<in> visited st" and nv: "n \<notin> visited st"
    and mv: "legal_move pl current n"
    and gc: "g_score st current = Some gc" and e: "edge_cost pl current n = Some e"
    and imp: "improves (gc + e) (g_score st n)"
  shows "opt_inv pl start goal (E - {(current, n)})
           (st\<lparr>came_from := (came_from st)(n \<mapsto> current),
               g_score := (g_score st)(n \<mapsto> gc + e),
               open_set := heappush (open_set st) (gc + e + heuristic goal n, n)\<rparr>)"
proof (rule opt_invI)
  let ?st1 = "st\<lparr>came_from := (came_from st)(n \<mapsto> current),
               g_score := (g_score st)(n \<mapsto> gc + e),
               open_set := heappush (open_set st) (gc + e + heuristic goal n, n)\<rparr>"
  have lower: "gc + e < gn" if "g_score st n = Some gn" for gn
    using imp that by (simp add: improves_def)
  show "start \<in> visited ?st1" using oi_start[OF inv] by simp
  show "\<exists>gv. g_score ?st1 v = Some gv" if "v \<in> visited ?st1" for v
    using that oi_visited[OF inv, of v] by auto
  show "\<exists>p. route pl start m p gn" if "g_score ?st1 m = Some gn" for m gn
  proof (cases "m = n")
    case True
    from oi_reach[OF inv gc] obtain pc where "route pl start current pc gc" by blast
    from route_snoc[OF this mv e] that True show ?thesis by auto
  next
    case False
    with that oi_reach[OF inv, of m gn] show ?thesis by simp
  qed
  show "\<exists>gv. g_score ?st1 v = Some gv \<and> gv \<le> c" if "v \<in> visited ?st1" "route pl start v p c" for v p c
  proof -
    from that(1) nv have "v \<noteq> n" by auto
    with that oi_best[OF inv, of v p c] show ?thesis by simp
  qed
  show "\<exists>gv gn. g_score ?st1 v = Some gv \<and> g_score ?st1 m = Some gn \<and> gn \<le> gv + e'"
    if "v \<in> visited ?st1" "m \<notin> visited ?st1" "(v, m) \<notin> E - {(current, n)}" "legal_move pl v m"
      "edge_cost pl v m = Some e'" for v m e'
  proof -
    from that(1) nv have vn: "v \<noteq> n" by auto
    show ?thesis
    proof (cases "(v, m) = (current, n)")
      case True
      with that(5) e have "e' = e" by simp
      with True gc vn show ?thesis by simp
    next
      case False
      with that(3) have ne: "(v, m) \<notin> E" by blast
      from that(1,2) have "v \<in> visited st" "m \<notin> visited st" by simp_all
      from oi_edge[OF inv this ne that(4,5)] obtain gv gm where
        g: "g_score st v = Some gv" "g_score st m = Some gm" "gm \<le> gv + e'" by blast
      show ?thesis
      proof (cases "m = n")
        case True
        with g lower[of gm] vn show ?thesis by auto
      next
        case False
        with g vn show ?thesis by simp
      qed
    qed
  qed
  show "(gn + heuristic goal m, m) \<in> set (open_set ?st1)"
    if "m \<notin> visited ?st1" "g_score ?st1 m = Some gn" for m gn
  proof (cases "m = n")
    case True
    with that show ?thesis by (simp add: heappush_def)
  next
    case False
    with that oi_open[OF inv, of m gn] show ?thesis by (simp add: heappush_def)
  qed
  show "\<exists>gn. g_score ?st1 m = Some gn \<and> gn + heuristic goal m \<le> f"
    if "(f, m) \<in> set (open_set ?st1)" for f m
  proof (cases "(f, m) = (gc + e + heuristic goal n, n)")
    case True
    then show ?thesis by simp
  next
    case False
    with that have old: "(f, m) \<in> set (open_set st)" by (auto simp: heappush_def)
    from oi_entry[OF inv old] obtain gm where gm: "g_score st m = Some gm" "gm + heuristic goal m \<le> f"
      by blast
    show ?thesis
    proof (cases "m = n")
      case True
      with gm lower[of gm] show ?thesis by auto
    next
      case False
      with gm show ?thesis by simp
    qed
  qed
qed

lemma relax_opt_inv:
  assumes "\<forall>(n, w) \<in> set nbs. legal_move pl current n \<and> w = norm2 (fst n - fst current) (snd n - snd current)"
    and "current \<in> visited st"
    and "opt_inv pl start goal E st"
    and "relax pl goal current nbs st = Inr st'"
  shows "opt_inv pl start goal (E - {current} \<times> fst ` set nbs) st'"
  using assms
proof (induction nbs arbitrary: st E)
  case Nil
  then show ?case by simp
next
  case (Cons nb nbs)
  obtain n w where nb: "nb = (n, w)" by (cases nb)
  have rest: "\<forall>(n, w) \<in> set nbs. legal_move pl current n \<and> w = norm2 (fst n - fst current) (snd n - snd current)"
    using Cons.prems(1) by simp
  have mv: "legal_move pl current n" and w: "w = norm2 (fst n - fst current) (snd n - snd current)"
    using Cons.prems(1) nb by auto
  have sets: "E - {(current, n)} - {current} \<times> fst ` set nbs = E - {current} \<times> fst ` set (nb # nbs)"
    by (auto simp: nb)
  from oi_visited[OF Cons.prems(3,2)] obtain gc where gc: "g_score st current = Some gc" by blast
  show ?case
  proof (cases "n \<in> visited st")
    case True
    with Cons.prems(4) have r: "relax pl goal current nbs st = Inr st'" by (simp add: nb)
    from Cons.IH[OF rest Cons.prems(2) opt_inv_skip[OF Cons.prems(3) True, where current = current] r] sets
    show ?thesis by simp
  next
    case nv: False
    show ?thesis
    proof (cases "elev_cost pl current n")
      case (Inl e)
      with nv Cons.prems(4) show ?thesis by (simp add: nb)
    next
      case (Inr ec)
      then have e: "edge_cost pl current n = Some (w + ec)" by (simp add: edge_cost_def w)
      show ?thesis
      proof (cases "improves (gc + (w + ec)) (g_score st n)")
        case False
        with nv Inr gc Cons.prems(4) have r: "relax pl goal current nbs st = Inr st'"
          by (simp add: nb Let_def)
        from Cons.IH[OF rest Cons.prems(2) opt_inv_keep[OF Cons.prems(3,2) gc e False] r] sets
        show ?thesis by simp
      next
        case True
        define st1 where "st1 = st\<lparr>came_from := (came_from st)(n \<mapsto> current),
               g_score := (g_score st)(n \<mapsto> gc + (w + ec)),
               open_set := heappush (open_set st) (gc + (w + ec) + heuristic goal n, n)\<rparr>"
        from True nv Inr gc Cons.prems(4) have r: "relax pl goal current nbs st1 = Inr st'"
          by (simp add: nb Let_def st1_def heuristic_def)
        have i1: "opt_inv pl start goal (E - {(current, n)}) st1"
          unfolding st1_def by (rule opt_inv_update[OF Cons.prems(3,2) nv mv gc e True])
        have v1: "current \<in> visited st1" using Cons.prems(2) by (simp add: st1_def)
        from Cons.IH[OF rest v1 i1 r] sets show ?thesis by simp
      qed
    qed
  qed
qed

lemma opt_inv_weaken:
  assumes inv: "opt_inv pl start goal E st" and "\<And>v n. (v, n) \<in> E \<Longrightarrow> \<not> legal_move pl v n"
  shows "opt_inv pl start goal {} st"
proof (rule opt_invI)
  show "start \<in> visited st" by (rule oi_start[OF inv])
  show "\<exists>gv. g_score st v = Some gv" if "v \<in> visited st" for v by (rule oi_visited[OF inv that])
  show "\<exists>p. route pl start m p gn" if "g_score st m = Some gn" for m gn by (rule oi_reach[OF inv that])
  show "\<exists>gv. g_score st v = Some gv \<and> gv \<le> c" if "v \<in> visited st" "route pl start v p c" for v p c
    by (rule oi_best[OF inv that])
  show "\<exists>gv gn. g_score st v = Some gv \<and> g_score st m = Some gn \<and> gn \<le> gv + e'"
    if "v \<in> visited st" "m \<notin> visited st" "(v, m) \<notin> {}" "legal_move pl v m"
      "edge_cost pl v m = Some e'" for v m e'
  proof -
    have "(v, m) \<notin> E" using assms(2)[of v m] that(4) by blast
    from oi_edge[OF inv that(1,2) this that(4,5)] show ?thesis .
  qed
  show "(gn + heuristic goal m, m) \<in> set (open_set st)" if "m \<notin> visited st" "g_score st m = Some gn" for m gn
    by (rule oi_open[OF inv that])
  show "\<exists>gn. g_score st m = Some gn \<and> gn + heuristic goal m \<le> f" if "(f, m) \<in> set (open_set st)" for f m
    by (rule oi_entry[OF inv that])
qed

lemma search_inv_step:
  assumes pen: "elevation_term_nonneg pl"
    and inv: "search_inv pl start goal st" and ne: "open_set st \<noteq> []"
    and r: "relax pl goal (snd (fst (heappop (open_set st)))) (get_neighbors pl (snd (fst (heappop (open_set st)))))
          (st\<lparr>open_set := snd (heappop (open_set st)),
              visited := insert (snd (fst (heappop (open_set st)))) (visited st)\<rparr>) = Inr st2"
  shows "search_inv pl start goal st2"
proof -
  define u where "u = snd (fst (heappop (open_set st)))"
  define st1 where "st1 = st\<lparr>open_set := snd (heappop (open_set st)), visited := insert u (visited st)\<rparr>"
  have t: "tree_inv pl start st2"
    using tree_inv_step[OF _ ne r] inv by (simp add: search_inv_def)
  have nbs: "\<forall>(n, w) \<in> set (get_neighbors pl u).
      legal_move pl u n \<and> w = norm2 (fst n - fst u) (snd n - snd u)"
    using get_neighbors_legal by blast
  have uv: "u \<in> visited st1" by (simp add: st1_def)
  have o1: "opt_inv pl start goal ({u} \<times> UNIV) st1"
  proof (cases "st = init_state start")
    case True
    have "u = start" by (simp add: u_def True init_state_def heappop_def)
    with opt_inv_first[OF pen, of start goal] True show ?thesis
      by (simp add: st1_def)
  next
    case False
    with inv have "opt_inv pl start goal {} st" by (simp add: search_inv_def)
    from opt_inv_pop[OF this pen ne] show ?thesis by (simp add: st1_def u_def)
  qed
  from relax_opt_inv[OF nbs uv o1 r[folded u_def, folded st1_def]]
  have "opt_inv pl start goal ({u} \<times> UNIV - {u} \<times> fst ` set (get_neighbors pl u)) st2" .
  then have "opt_inv pl start goal {} st2"
  proof (rule opt_inv_weaken)
    fix v n assume "(v, n) \<in> {u} \<times> UNIV - {u} \<times> fst ` set (get_neighbors pl u)"
    then have "v = u" "n \<notin> fst ` set (get_neighbors pl u)" by auto
    then show "\<not> legal_move pl v n"
      using get_neighbors_legal[of n _ pl u] by force
  qed
  with t show ?thesis by (simp add: search_inv_def)
qed

lemma search_inv_final:
  assumes pen: "elevation_term_nonneg pl" and neq: "start \<noteq> goal"
    and inv: "search_inv pl start goal st" and ne: "open_set st \<noteq> []"
    and goal: "snd (fst (heappop (open_set st))) = goal"
    and w: "walk_back (came_from st) goal [] = Some path"
    and q: "route pl start goal q cq"
  shows "\<exists>cp. path_cost pl (rev (path @ [start])) = Some cp \<and> cp \<le> cq"
proof -
  have "st \<noteq> init_state start"
    using goal neq by (auto simp: init_state_def heappop_def)
  with inv have o: "opt_inv pl start goal {} st" and t: "tree_inv pl start st"
    by (simp_all add: search_inv_def)
  from pop_best[OF o pen ne q[folded goal]] goal
  obtain gu where "g_score st goal = Some gu" "gu \<le> cq" by auto
  with tree_inv_final[OF t ne goal w] show ?thesis by simp
qed

text \<open>
  With respect to the cost the search itself computes, and provided its elevation term
  is never negative, a path returned by \<open>find_path\<close> costs no more than any legal path
  from \<open>start\<close> to \<open>goal\<close>.
\<close>

lemma search_cost_optimal:
  assumes pen: "elevation_term_nonneg pl"
    and found: "find_path pl start goal = Some (Inr (Some path))"
    and q: "q \<noteq> []" "hd q = start" "last q = goal" "legal_path pl q" "path_cost pl q = Some cq"
  shows "\<exists>cp. path_cost pl path = Some cp \<and> cp \<le> cq"
proof (cases "start = goal")
  case True
  with found have "path = [start]" by (simp add: find_path_def)
  with path_cost_nonneg[OF pen q(5)] show ?thesis by simp
next
  case False
  with found have l: "astar_loop pl start goal (init_state start) = Some (Inr (Some path))"
    by (simp add: find_path_def)
  have r: "route pl start goal q cq" using q by (simp add: route_def)
  show ?thesis
  proof (rule astar_loop_rule[OF l, where I = "search_inv pl start goal"
        and Q = "\<lambda>p. \<exists>cp. path_cost pl p = Some cp \<and> cp \<le> cq"])
    show "search_inv pl start goal (init_state start)"
      by (simp add: search_inv_def tree_inv_init)
  next
    fix st st2
    assume "search_inv pl start goal st" "open_set st \<noteq> []"
      "relax pl goal (snd (fst (heappop (open_set st)))) (get_neighbors pl (snd (fst (heappop (open_set st)))))
          (st\<lparr>open_set := snd (heappop (open_set st)),
              visited := insert (snd (fst (heappop (open_set st)))) (visited st)\<rparr>) = Inr st2"
    then show "search_inv pl start goal st2" by (rule search_inv_step[OF pen])
  next
    fix st p
    assume "search_inv pl start goal st" "open_set st \<noteq> []" "snd (fst (heappop (open_set st))) = goal"
      "walk_back (came_from st) goal [] = Some p"
    from search_inv_final[OF pen False this r]
    show "\<exists>cp. path_cost pl (rev (p @ [start])) = Some cp \<and> cp \<le> cq" .
  qed simp
qed

text \<open>
  For a raster of floating-point numbers, or none, the search prices every edge as the
  claim words it, so there the returned path is cheapest in the claimed cost too.
\<close>

lemma float_nonneg: "0 \<le> elevation_penalty pl \<Longrightarrow> float_or_no_raster pl \<Longrightarrow> elevation_term_nonneg pl"
  by (auto simp: float_or_no_raster_def elevation_term_nonneg_def split: option.splits raster.splits)

lemma claimed_edge_cost_search:
  assumes "float_or_no_raster pl" and "claimed_edge_cost pl a b = Some e"
  shows "edge_cost pl a b = Some e"
  using assms
  by (auto simp: float_or_no_raster_def claimed_edge_cost_def edge_cost_def elev_cost_def np_get_def
      split: option.splits raster.splits if_splits)

lemma claimed_path_cost_Cons:
  "claimed_path_cost pl (a # b # rest) = Some c \<longleftrightarrow>
   (\<exists>e c'. claimed_edge_cost pl a b = Some e \<and> claimed_path_cost pl (b # rest) = Some c' \<and> c = e + c')"
  by (auto split: option.splits)

lemma claimed_path_cost_search:
  assumes fl: "float_or_no_raster pl"
  shows "claimed_path_cost pl p = Some c \<Longrightarrow> path_cost pl p = Some c"
proof (induction p arbitrary: c)
  case Nil
  then show ?case by simp
next
  case (Cons a p)
  show ?case
  proof (cases p)
    case Nil
    with Cons.prems show ?thesis by simp
  next
    case (Cons b rest)
    from Cons.prems obtain e c' where e: "claimed_edge_cost pl a b = Some e"
      "claimed_path_cost pl (b # rest) = Some c'" "c = e + c'"
      unfolding Cons claimed_path_cost_Cons by blast
    from Cons.IH[of c'] e(2) Cons have "path_cost pl (b # rest) = Some c'" by simp
    with claimed_edge_cost_search[OF fl e(1)] e(3) show ?thesis unfolding Cons by simp
  qed
qed

lemma search_edge_cost_claimed:
  assumes "float_or_no_raster pl" and "edge_cost pl a b = Some e" and "legal_move pl a b"
    and "in_raster pl a"
  shows "claimed_edge_cost pl a b = Some e \<and> in_raster pl b"
  using assms
  by (auto simp: float_or_no_raster_def claimed_edge_cost_def edge_cost_def elev_cost_def np_get_def
      in_raster_def legal_move_def in_bounds_def Let_def
      split: option.splits raster.splits if_splits sum.splits)

lemma search_path_cost_claimed:
  assumes fl: "float_or_no_raster pl"
  shows "legal_path pl (a # rest) \<Longrightarrow> path_cost pl (a # rest) = Some c \<Longrightarrow> in_raster pl a \<Longrightarrow>
     claimed_path_cost pl (a # rest) = Some c"
proof (induction rest arbitrary: a c)
  case Nil
  then show ?case by simp
next
  case (Cons b rest)
  from Cons.prems(2) obtain e c' where e: "edge_cost pl a b = Some e" "path_cost pl (b # rest) = Some c'"
      "c = e + c'"
    unfolding path_cost_Cons by blast
  from Cons.prems(1) have mv: "legal_move pl a b" and lp: "legal_path pl (b # rest)" by simp_all
  from search_edge_cost_claimed[OF fl e(1) mv Cons.prems(3)]
  have ce: "claimed_edge_cost pl a b = Some e" and inb: "in_raster pl b" by simp_all
  from Cons.IH[OF lp e(2) inb] ce e(3) show ?case by simp
qed

lemma claimed_cost_optimal_float:
  assumes pen: "0 \<le> elevation_penalty pl" and fl: "float_or_no_raster pl"
    and found: "find_path pl start goal = Some (Inr (Some path))"
    and q: "q \<noteq> []" "hd q = start" "last q = goal" "legal_path pl q" "claimed_path_cost pl q = Some cq"
  shows "\<exists>cp. claimed_path_cost pl path = Some cp \<and> cp \<le> cq"
proof -
  have nn: "elevation_term_nonneg pl" by (rule float_nonneg[OF pen fl])
  have pq: "path_cost pl q = Some cq" by (rule claimed_path_cost_search[OF fl q(5)])
  from search_cost_optimal[OF nn found q(1-4) pq] obtain cp where
    cp: "path_cost pl path = Some cp" "cp \<le> cq" by blast
  from find_path_route[OF found] obtain rest where p: "path = start # rest" and lp: "legal_path pl path"
    by (cases path) auto
  show ?thesis
  proof (cases rest)
    case Nil
    with p cp show ?thesis by simp
  next
    case (Cons b rest')
    have sg: "start \<noteq> goal"
    proof
      assume "start = goal"
      with found have "path = [start]" by (simp add: find_path_def)
      with p Cons show False by simp
    qed
    from q(1,2) obtain q' where q': "q = start # q'" by (cases q) auto
    with q(3) sg obtain b' r' where q2: "q = start # b' # r'" by (cases q') auto
    from q(5) obtain e where "claimed_edge_cost pl start b' = Some e"
      unfolding q2 claimed_path_cost_Cons by blast
    then have "in_raster pl start"
      by (auto simp: claimed_edge_cost_def in_raster_def split: option.splits)
    from search_path_cost_claimed[OF fl lp[unfolded p] cp(1)[unfolded p] this] cp(2) p
    show ?thesis by simp
  qed
qed

text \<open>
  On the raster of unsigned 8-bit integers the search prices the step from elevation 10
  down to elevation 9 with \<open>9 - 10 = 255\<close> elevation units.
\<close>

lemma sqrt_2_gt_1: "1 < sqrt 2"
  by (rule real_less_rsqrt) simp

lemma sqrt_2_lt: "sqrt 2 < 3 / 2"
  by (rule real_less_lsqrt) (simp_all add: power2_eq_square)

lemma sqrt_5_gt_2: "2 < sqrt 5"
  by (rule real_less_rsqrt) simp

lemmas sqrt_2_bounds = sqrt_2_gt_1 sqrt_2_lt
lemmas sqrt_5_bounds = sqrt_5_gt_2

lemma nb00: "get_neighbors dip_planner (0, 0) = [((0, 1), 1), ((1, 0), 1), ((1, 1), sqrt 2)]"
  by (simp add: get_neighbors_def dip_planner_def directions_def in_bounds_def is_free_def norm2_def)

lemma nb11: "get_neighbors dip_planner (1, 1) =
    [((1, 2), 1), ((1, 0), 1), ((0, 1), 1), ((0, 2), sqrt 2), ((0, 0), sqrt 2)]"
  by (simp add: get_neighbors_def dip_planner_def directions_def in_bounds_def is_free_def norm2_def)

lemma ec_00_01: "elev_cost dip_planner (0, 0) (0, 1) = Inr (255 / 8)"
  by (simp add: elev_cost_def dip_planner_def dip_raster_def np_get_def int_abs_diff_def scalar_wrap_def)
lemma ec_00_10: "elev_cost dip_planner (0, 0) (1, 0) = Inr 0"
  by (simp add: elev_cost_def dip_planner_def dip_raster_def np_get_def int_abs_diff_def scalar_wrap_def)
lemma ec_00_11: "elev_cost dip_planner (0, 0) (1, 1) = Inr 0"
  by (simp add: elev_cost_def dip_planner_def dip_raster_def np_get_def int_abs_diff_def scalar_wrap_def)
lemma ec_11_12: "elev_cost dip_planner (1, 1) (1, 2) = Inr 0"
  by (simp add: elev_cost_def dip_planner_def dip_raster_def np_get_def int_abs_diff_def scalar_wrap_def)
lemma ec_11_10: "elev_cost dip_planner (1, 1) (1, 0) = Inr 0"
  by (simp add: elev_cost_def dip_planner_def dip_raster_def np_get_def int_abs_diff_def scalar_wrap_def)
lemma ec_11_01: "elev_cost dip_planner (1, 1) (0, 1) = Inr (255 / 8)"
  by (simp add: elev_cost_def dip_planner_def dip_raster_def np_get_def int_abs_diff_def scalar_wrap_def)
lemma ec_11_02: "elev_cost dip_planner (1, 1) (0, 2) = Inr 0"
  by (simp add: elev_cost_def dip_planner_def dip_raster_def np_get_def int_abs_diff_def scalar_wrap_def)

lemmas dip_ec = ec_00_01 ec_00_10 ec_00_11 ec_11_12 ec_11_10 ec_11_01 ec_11_02

lemma dip_find_path: "find_path dip_planner (0, 0) (0, 2) = Some (Inr (Some [(0, 0), (1, 1), (0, 2)]))"
  using sqrt_2_bounds sqrt_5_bounds
  by (simp add: find_path_def init_state_def astar_loop.simps heappop_def nb00 nb11 dip_ec improves_def
        heappush_def norm2_def Let_def walk_back.simps entry_le_def)

lemma sqrt_2_gt_9_8: "9 / 8 < sqrt 2"
  by (rule real_less_rsqrt) (simp add: power2_eq_square)

text \<open>
  Claim C2. The claim says that a returned path is cheapest among the legal paths from
  \<open>start\<close> to \<open>goal\<close>, an edge costing the Euclidean length of its offset plus the penalty
  times the absolute elevation difference. With the raster of unsigned 8-bit integers
  and the penalty 1/8, \<open>find_path\<close> from (0, 0) to (0, 2) returns the path over (1, 1),
  which costs twice the square root of 2, although the straight path over (0, 1) is
  legal and costs 9/4: the search computes \<open>abs(elev_neighbor - elev_current)\<close> in the
  raster's integer type, where the difference wraps around.
\<close>

theorem unsigned_raster_detour:
  "find_path dip_planner (0, 0) (0, 2) = Some (Inr (Some [(0, 0), (1, 1), (0, 2)])) \<and>
   legal_path dip_planner [(0, 0), (0, 1), (0, 2)] \<and>
   claimed_path_cost dip_planner [(0, 0), (0, 1), (0, 2)] = Some (9 / 4) \<and>
   claimed_path_cost dip_planner [(0, 0), (1, 1), (0, 2)] = Some (2 * sqrt 2) \<and>
   9 / 4 < 2 * sqrt 2"
proof -
  have lp: "legal_path dip_planner [(0, 0), (0, 1), (0, 2)]"
    by (simp add: legal_move_def directions_def in_bounds_def is_free_def dip_planner_def)
  have straight: "claimed_path_cost dip_planner [(0, 0), (0, 1), (0, 2)] = Some (9 / 4)"
    by (simp add: claimed_edge_cost_def dip_planner_def dip_raster_def norm2_def)
  have detour: "claimed_path_cost dip_planner [(0, 0), (1, 1), (0, 2)] = Some (2 * sqrt 2)"
    by (simp add: claimed_edge_cost_def dip_planner_def dip_raster_def norm2_def)
  have "9 / 4 < 2 * sqrt 2" using sqrt_2_gt_9_8 by simp
  with dip_find_path lp straight detour show ?thesis by simp
qed

end
